theory Spec2Isabelle
  imports Main "HOL-Library.Sublist" "HOL-Library.Multiset" "HOL-Library.Product_Lexorder"
begin

section \<open>Python strings, slices and dictionaries\<close>

text \<open>
  A Python \<open>str\<close> is a sequence of Unicode code points, and the offsets of an entity
  index code points. A string is therefore a list of code points (natural numbers);
  \<open>ustr\<close> embeds an ASCII literal.
\<close>

type_synonym ustring = "nat list"

definition ustr :: "string \<Rightarrow> ustring" where
  "ustr s = map of_char s"

text \<open>
  Slice bounds: a negative bound counts from the end, and every bound is clamped
  to \<open>[0, len]\<close>. A slice never raises.
\<close>

definition slice_index :: "nat \<Rightarrow> int \<Rightarrow> nat" where
  "slice_index n k =
     (if k < 0 then (if k + int n < 0 then 0 else nat (k + int n))
      else if int n < k then n else nat k)"

text \<open>\<open>t[:k]\<close>, \<open>t[k:]\<close> and \<open>t[a:b]\<close>.\<close>

definition py_upto :: "'a list \<Rightarrow> int \<Rightarrow> 'a list" where
  "py_upto t k = take (slice_index (length t) k) t"

definition py_from :: "'a list \<Rightarrow> int \<Rightarrow> 'a list" where
  "py_from t k = drop (slice_index (length t) k) t"

definition py_slice :: "'a list \<Rightarrow> int \<Rightarrow> int \<Rightarrow> 'a list" where
  "py_slice t a b =
     (let i = slice_index (length t) a; j = slice_index (length t) b
      in if i < j then take (j - i) (drop i t) else [])"

text \<open>
  A \<open>dict\<close> keeps its keys in insertion order: an association list with distinct
  keys. Assignment overwrites the value of a present key and appends an absent one,
  so \<open>len\<close> is the length of the list.
\<close>

type_synonym ('k, 'v) dict = "('k \<times> 'v) list"

definition dict_get :: "('k, 'v) dict \<Rightarrow> 'k \<Rightarrow> 'v option" where
  "dict_get d k = map_of d k"

fun dict_set :: "('k, 'v) dict \<Rightarrow> 'k \<Rightarrow> 'v \<Rightarrow> ('k, 'v) dict" where
  "dict_set [] k v = [(k, v)]"
| "dict_set ((k', v') # d) k v =
     (if k' = k then (k', v) # d else (k', v') # dict_set d k v)"

text \<open>\<open>str(n)\<close> for a non-negative integer: its decimal digits.\<close>

fun str_nat :: "nat \<Rightarrow> ustring" where
  "str_nat n = (if n < 10 then [48 + n] else str_nat (n div 10) @ [48 + n mod 10])"

declare str_nat.simps [simp del]

datatype py_error = KeyError

section \<open>The detector's output\<close>

text \<open>
  An entity of \<open>doc.ents\<close>: its character offsets and its label. The pipeline object
  \<open>nlp\<close> carries its language code and, applied to a text, yields the entities.
  The entity's \<open>text\<close> attribute is the slice of the document text between its
  offsets.
\<close>

record entity =
  start_char :: int
  end_char :: int
  label :: ustring

record nlp_model =
  lang :: ustring
  doc_ents :: "ustring \<Rightarrow> entity list"

definition ent_text :: "ustring \<Rightarrow> entity \<Rightarrow> ustring" where
  "ent_text text ent = py_slice text (start_char ent) (end_char ent)"

section \<open>anonymize_text\<close>

definition placeholder_mapping :: "ustring \<Rightarrow> (ustring, ustring) dict" where
  "placeholder_mapping lg =
     [(ustr ''PERSON'', if lg = ustr ''he'' then [1488, 1491, 1501] else ustr ''person''),
      (ustr ''DATE'', if lg = ustr ''he'' then [1514, 1488, 1512, 1497, 1498] else ustr ''date''),
      (ustr ''GPE'', if lg = ustr ''he'' then [1502, 1497, 1511, 1493, 1501] else ustr ''location'')]"

type_synonym replacement = "int \<times> int \<times> ustring"

text \<open>
  The body of the first loop, on the state \<open>(placeholder_counter, replacements)\<close>.
  Every subscript read of a dictionary may raise \<open>KeyError\<close>.
\<close>

definition ent_step ::
  "ustring \<Rightarrow> (ustring, ustring) dict \<Rightarrow> (ustring, ustring) dict \<times> replacement list \<Rightarrow> entity
     \<Rightarrow> py_error + ((ustring, ustring) dict \<times> replacement list)" where
  "ent_step text pm st ent =
     (case st of (placeholder_counter, replacements) \<Rightarrow>
        if dict_get pm (label ent) \<noteq> None then
          (case dict_get pm (label ent) of
             None \<Rightarrow> Inl KeyError
           | Some placeholder_type \<Rightarrow>
               let pc' =
                 (if dict_get placeholder_counter (ent_text text ent) = None
                  then dict_set placeholder_counter (ent_text text ent)
                         (placeholder_type @ ustr ''_'' @ str_nat (length placeholder_counter + 1))
                  else placeholder_counter)
               in (case dict_get pc' (ent_text text ent) of
                     None \<Rightarrow> Inl KeyError
                   | Some placeholder \<Rightarrow>
                       Inr (pc', replacements @ [(start_char ent, end_char ent, placeholder)])))
        else Inr (placeholder_counter, replacements))"

fun ents_loop ::
  "ustring \<Rightarrow> (ustring, ustring) dict \<Rightarrow> (ustring, ustring) dict \<times> replacement list \<Rightarrow> entity list
     \<Rightarrow> py_error + ((ustring, ustring) dict \<times> replacement list)" where
  "ents_loop text pm st [] = Inr st"
| "ents_loop text pm st (ent # ents) =
     (case ent_step text pm st ent of
        Inl err \<Rightarrow> Inl err
      | Inr st' \<Rightarrow> ents_loop text pm st' ents)"

text \<open>One pass of the second loop: \<open>text = text[:start] + placeholder + text[end:]\<close>.\<close>

definition apply_replacement :: "ustring \<Rightarrow> replacement \<Rightarrow> ustring" where
  "apply_replacement text r =
     (case r of (start, end, placeholder) \<Rightarrow> py_upto text start @ placeholder @ py_from text end)"

text \<open>
  \<open>sorted(replacements, key=lambda x: x[0], reverse=True)\<close>: the sort is stable, also
  when reversed, so it is the stable sort on the negated start offset.
\<close>

definition sorted_replacements :: "replacement list \<Rightarrow> replacement list" where
  "sorted_replacements replacements = sort_key (\<lambda>x. - fst x) replacements"

definition anonymize_text :: "ustring \<Rightarrow> nlp_model \<Rightarrow> py_error + ustring" where
  "anonymize_text text nlp =
     (case ents_loop text (placeholder_mapping (lang nlp)) ([], []) (doc_ents nlp text) of
        Inl err \<Rightarrow> Inl err
      | Inr (placeholder_counter, replacements) \<Rightarrow>
          Inr (foldl apply_replacement text (sorted_replacements replacements)))"

section \<open>Notions used in the statements\<close>

text \<open>An entity is in scope when its label is a key of the placeholder mapping
  (the test \<open>ent.label_ in placeholder_mapping\<close>).\<close>

definition in_scope :: "(ustring, ustring) dict \<Rightarrow> entity \<Rightarrow> bool" where
  "in_scope pm ent \<longleftrightarrow> dict_get pm (label ent) \<noteq> None"

definition in_scope_ents :: "ustring \<Rightarrow> nlp_model \<Rightarrow> entity list" where
  "in_scope_ents text nlp = filter (in_scope (placeholder_mapping (lang nlp))) (doc_ents nlp text)"

text \<open>The distinct elements of a list, in the order of their first occurrence.\<close>

fun first_seen :: "'a list \<Rightarrow> 'a list" where
  "first_seen [] = []"
| "first_seen (x # xs) = x # filter (\<lambda>y. y \<noteq> x) (first_seen xs)"

text \<open>The number a string of decimal digits denotes.\<close>

definition undigits :: "nat list \<Rightarrow> nat" where
  "undigits ds = foldl (\<lambda>a d. 10 * a + (d - 48)) 0 ds"

text \<open>The span of a replacement and the spans of a list of entities.\<close>

definition span_of :: "replacement \<Rightarrow> int \<times> int" where
  "span_of r = (fst r, fst (snd r))"

definition spans :: "entity list \<Rightarrow> (int \<times> int) list" where
  "spans ents = map (\<lambda>ent. (start_char ent, end_char ent)) ents"

text \<open>A span is valid for a text when \<open>0 \<le> start \<le> end \<le> len(text)\<close>; two spans are
  disjoint when one ends at or before the start of the other; the spans of a batch do
  not overlap when they are pairwise disjoint.\<close>

definition valid_span :: "ustring \<Rightarrow> int \<times> int \<Rightarrow> bool" where
  "valid_span text sp \<longleftrightarrow> 0 \<le> fst sp \<and> fst sp \<le> snd sp \<and> snd sp \<le> int (length text)"

definition disjoint_spans :: "int \<times> int \<Rightarrow> int \<times> int \<Rightarrow> bool" where
  "disjoint_spans a b \<longleftrightarrow> snd a \<le> fst b \<or> snd b \<le> fst a"

fun non_overlapping :: "(int \<times> int) list \<Rightarrow> bool" where
  "non_overlapping [] = True"
| "non_overlapping (a # bs) = (list_all (disjoint_spans a) bs \<and> non_overlapping bs)"

text \<open>A zero-length span listed in the batch before a non-empty span that starts at
  the same offset.\<close>

definition empty_before :: "int \<times> int \<Rightarrow> int \<times> int \<Rightarrow> bool" where
  "empty_before a b \<longleftrightarrow> fst a = snd a \<and> fst b = fst a \<and> fst b < snd b"

fun no_empty_before :: "(int \<times> int) list \<Rightarrow> bool" where
  "no_empty_before [] = True"
| "no_empty_before (a # bs) = (list_all (\<lambda>b. \<not> empty_before a b) bs \<and> no_empty_before bs)"

text \<open>
  The reference rewrite: the spans taken from left to right (by start, then by end),
  the untouched segments of the original text between them copied, each span replaced
  by its placeholder. \<open>rewrite_from pos\<close> rewrites the text from position \<open>pos\<close> on.
\<close>

fun rewrite_from :: "nat \<Rightarrow> ustring \<Rightarrow> replacement list \<Rightarrow> ustring" where
  "rewrite_from pos text [] = drop pos text"
| "rewrite_from pos text ((s, e, p) # rs) =
     take (nat s - pos) (drop pos text) @ p @ rewrite_from (nat e) text rs"

definition left_to_right :: "replacement list \<Rightarrow> replacement list" where
  "left_to_right reps = sort_key span_of reps"

definition reference_rewrite :: "ustring \<Rightarrow> replacement list \<Rightarrow> ustring" where
  "reference_rewrite text reps = rewrite_from 0 text (left_to_right reps)"

text \<open>
  The characters outside all spans: position \<open>i\<close> is covered by a span \<open>(start, end)\<close>
  when \<open>start \<le> i < end\<close>; \<open>uncovered t cov a b\<close> lists the characters of \<open>t\<close> at the
  positions of \<open>[a, b)\<close> that are not covered, in their order in the text.
\<close>

definition covered :: "(int \<times> int) list \<Rightarrow> nat \<Rightarrow> bool" where
  "covered sps i \<longleftrightarrow> list_ex (\<lambda>sp. fst sp \<le> int i \<and> int i < snd sp) sps"

definition uncovered :: "'a list \<Rightarrow> (nat \<Rightarrow> bool) \<Rightarrow> nat \<Rightarrow> nat \<Rightarrow> 'a list" where
  "uncovered t cov a b = map (\<lambda>i. t ! i) (filter (\<lambda>i. \<not> cov i) [a..<b])"

definition outside_chars :: "ustring \<Rightarrow> (int \<times> int) list \<Rightarrow> ustring" where
  "outside_chars text sps = uncovered text (covered sps) 0 (length text)"

text \<open>The edit \<open>t[:s] + p + t[e:]\<close> on natural offsets, and a replacement with its
  offsets read as natural numbers.\<close>

definition splice :: "'a list \<Rightarrow> nat \<times> nat \<times> 'a list \<Rightarrow> 'a list" where
  "splice t r = take (fst r) t @ snd (snd r) @ drop (fst (snd r)) t"

definition nat_replacement :: "replacement \<Rightarrow> nat \<times> nat \<times> ustring" where
  "nat_replacement r = (nat (fst r), nat (fst (snd r)), snd (snd r))"

text \<open>A pipeline that reports the same entities for every text, for concrete inputs.\<close>

definition detector :: "ustring \<Rightarrow> entity list \<Rightarrow> nlp_model" where
  "detector lg ents = \<lparr>lang = lg, doc_ents = (\<lambda>text. ents)\<rparr>"

section \<open>Dictionaries and the first loop\<close>

lemma dict_get_dict_set:
  "dict_get (dict_set d k v) k' = (if k' = k then Some v else dict_get d k')"
  by (induction d) (auto simp: dict_get_def)

lemma dict_set_absent: "dict_get d k = None \<Longrightarrow> dict_set d k v = d @ [(k, v)]"
  by (induction d) (auto simp: dict_get_def split: if_splits)

lemma ent_step_out_of_scope:
  "\<not> in_scope pm ent \<Longrightarrow> ent_step text pm st ent = Inr st"
  by (cases st) (simp add: ent_step_def in_scope_def)

lemma ent_step_new:
  assumes "dict_get pm (label ent) = Some w" and "dict_get pc (ent_text text ent) = None"
  shows "ent_step text pm (pc, reps) ent =
           Inr (pc @ [(ent_text text ent, w @ ustr ''_'' @ str_nat (length pc + 1))],
                reps @ [(start_char ent, end_char ent, w @ ustr ''_'' @ str_nat (length pc + 1))])"
proof -
  have "dict_get (dict_set pc (ent_text text ent) (w @ ustr ''_'' @ str_nat (length pc + 1)))
          (ent_text text ent) = Some (w @ ustr ''_'' @ str_nat (length pc + 1))"
    by (simp add: dict_get_dict_set)
  with assms show ?thesis
    by (simp add: ent_step_def Let_def dict_set_absent [symmetric])
qed

lemma ent_step_seen:
  assumes "dict_get pm (label ent) = Some w" and "dict_get pc (ent_text text ent) = Some p"
  shows "ent_step text pm (pc, reps) ent = Inr (pc, reps @ [(start_char ent, end_char ent, p)])"
  using assms by (simp add: ent_step_def)

lemma ent_step_total: "\<exists>pc' new. ent_step text pm (pc, reps) ent = Inr (pc', reps @ new)"
proof (cases "dict_get pm (label ent)")
  case None
  then have "ent_step text pm (pc, reps) ent = Inr (pc, reps @ [])"
    by (simp add: ent_step_out_of_scope in_scope_def)
  then show ?thesis by blast
next
  case (Some w)
  show ?thesis
  proof (cases "dict_get pc (ent_text text ent)")
    case None
    from ent_step_new [OF Some None] show ?thesis by blast
  next
    case (Some p)
    from ent_step_seen [OF \<open>dict_get pm (label ent) = Some w\<close> Some] show ?thesis by blast
  qed
qed

lemma ents_loop_total: "\<exists>pc' new. ents_loop text pm (pc, reps) ents = Inr (pc', reps @ new)"
proof (induction ents arbitrary: pc reps)
  case Nil
  then show ?case by simp
next
  case (Cons ent ents)
  obtain pc1 new1 where s: "ent_step text pm (pc, reps) ent = Inr (pc1, reps @ new1)"
    using ent_step_total by blast
  obtain pc2 new2 where "ents_loop text pm (pc1, reps @ new1) ents = Inr (pc2, (reps @ new1) @ new2)"
    using Cons.IH by blast
  with s have "ents_loop text pm (pc, reps) (ent # ents) = Inr (pc2, reps @ (new1 @ new2))"
    by simp
  then show ?case by blast
qed

lemma ents_loop_filter:
  "ents_loop text pm st (filter (in_scope pm) ents) = ents_loop text pm st ents"
  by (induction ents arbitrary: st) (simp_all add: ent_step_out_of_scope split: sum.splits)

lemma set_first_seen: "set (first_seen xs) = set xs"
  by (induction xs) auto

lemma distinct_first_seen: "distinct (first_seen xs)"
  by (induction xs) auto

lemma filter_first_seen: "filter P (first_seen xs) = first_seen (filter P xs)"
proof (induction xs)
  case Nil
  then show ?case by simp
next
  case (Cons x xs)
  have "filter P (filter (\<lambda>y. y \<noteq> x) (first_seen xs)) = filter (\<lambda>y. y \<noteq> x) (filter P (first_seen xs))"
    by (simp add: conj_commute)
  moreover have "\<not> P x \<Longrightarrow> filter (\<lambda>y. y \<noteq> x) (first_seen (filter P xs)) = first_seen (filter P xs)"
    by (rule filter_True) (auto simp: set_first_seen)
  ultimately show ?case using Cons by simp
qed

lemma dict_get_append:
  "dict_get (d @ d') k = (case dict_get d k of None \<Rightarrow> dict_get d' k | Some v \<Rightarrow> Some v)"
  unfolding dict_get_def by (simp add: map_add_def)

lemma dict_get_None_iff: "dict_get d k = None \<longleftrightarrow> k \<notin> fst ` set d"
  by (simp add: dict_get_def map_of_eq_None_iff)

lemma ents_loop_Cons_cases:
  assumes "ents_loop text pm (pc, reps) (ent # ents) = Inr res"
  obtains
    (skip) "\<not> in_scope pm ent" and "ents_loop text pm (pc, reps) ents = Inr res"
  | (seen) w p where "dict_get pm (label ent) = Some w" and "in_scope pm ent"
      and "dict_get pc (ent_text text ent) = Some p"
      and "ents_loop text pm (pc, reps @ [(start_char ent, end_char ent, p)]) ents = Inr res"
  | (new) w where "dict_get pm (label ent) = Some w" and "in_scope pm ent"
      and "dict_get pc (ent_text text ent) = None"
      and "ents_loop text pm
             (pc @ [(ent_text text ent, w @ ustr ''_'' @ str_nat (length pc + 1))],
              reps @ [(start_char ent, end_char ent, w @ ustr ''_'' @ str_nat (length pc + 1))])
             ents = Inr res"
proof (cases "dict_get pm (label ent)")
  case None
  then have "\<not> in_scope pm ent" by (simp add: in_scope_def)
  with assms skip show ?thesis by (simp add: ent_step_out_of_scope)
next
  case (Some w)
  then have sc: "in_scope pm ent" by (simp add: in_scope_def)
  show ?thesis
  proof (cases "dict_get pc (ent_text text ent)")
    case None
    with assms Some sc new show ?thesis by (simp add: ent_step_new)
  next
    case (Some p)
    with assms \<open>dict_get pm (label ent) = Some w\<close> sc seen show ?thesis
      by (simp add: ent_step_seen)
  qed
qed

text \<open>The counter only grows, by appending keys it did not have.\<close>

lemma ents_loop_keys:
  assumes "ents_loop text pm (pc, reps) ents = Inr (pc', reps')"
  shows "\<exists>added. pc' = pc @ added \<and>
           map fst added =
             first_seen (filter (\<lambda>t. t \<notin> fst ` set pc)
               (map (ent_text text) (filter (in_scope pm) ents)))"
  using assms
proof (induction ents arbitrary: pc reps)
  case Nil
  then show ?case by simp
next
  case (Cons ent ents)
  from Cons.prems show ?case
  proof (cases rule: ents_loop_Cons_cases)
    case skip
    with Cons.IH show ?thesis by simp
  next
    case (seen w p)
    then have "ent_text text ent \<in> fst ` set pc"
      using dict_get_None_iff [of pc "ent_text text ent"] by auto
    with Cons.IH [OF seen(4)] seen(2) show ?thesis by simp
  next
    case (new w)
    let ?t = "ent_text text ent"
    let ?v = "w @ ustr ''_'' @ str_nat (length pc + 1)"
    from Cons.IH [OF new(4)] obtain added where
      a: "pc' = (pc @ [(?t, ?v)]) @ added"
      and k: "map fst added =
        first_seen (filter (\<lambda>t. t \<notin> fst ` set (pc @ [(?t, ?v)]))
          (map (ent_text text) (filter (in_scope pm) ents)))"
      by blast
    have nin: "?t \<notin> fst ` set pc" using new(3) by (simp add: dict_get_None_iff)
    have "filter (\<lambda>t. t \<notin> fst ` set (pc @ [(?t, ?v)])) (map (ent_text text) (filter (in_scope pm) ents))
          = filter (\<lambda>y. y \<noteq> ?t) (filter (\<lambda>t. t \<notin> fst ` set pc) (map (ent_text text) (filter (in_scope pm) ents)))"
      by (induction ents) auto
    with k have "map fst ((?t, ?v) # added) =
        first_seen (filter (\<lambda>t. t \<notin> fst ` set pc)
          (map (ent_text text) (filter (in_scope pm) (ent # ents))))"
      using nin new(2) by (simp add: filter_first_seen)
    with a show ?thesis by simp
  qed
qed

lemma ents_loop_mono:
  assumes "ents_loop text pm (pc, reps) ents = Inr (pc', reps')"
    and "dict_get pc k = Some v"
  shows "dict_get pc' k = Some v"
proof -
  from ents_loop_keys [OF assms(1)] obtain added where "pc' = pc @ added" by blast
  with assms(2) show ?thesis by (simp add: dict_get_append)
qed

text \<open>One replacement per in-scope entity, carrying the entity's offsets and the
  placeholder the final counter holds for the entity's text.\<close>

lemma ents_loop_replacements:
  assumes "ents_loop text pm (pc, reps) ents = Inr (pc', reps')"
  shows "\<exists>new. reps' = reps @ new \<and>
           list_all2 (\<lambda>ent r. fst r = start_char ent \<and> fst (snd r) = end_char ent \<and>
                        dict_get pc' (ent_text text ent) = Some (snd (snd r)))
             (filter (in_scope pm) ents) new"
  using assms
proof (induction ents arbitrary: pc reps)
  case Nil
  then show ?case by simp
next
  case (Cons ent ents)
  from Cons.prems show ?case
  proof (cases rule: ents_loop_Cons_cases)
    case skip
    with Cons.IH show ?thesis by simp
  next
    case (seen w p)
    from Cons.IH [OF seen(4)] obtain new where
      n: "reps' = (reps @ [(start_char ent, end_char ent, p)]) @ new"
      and l: "list_all2 (\<lambda>ent r. fst r = start_char ent \<and> fst (snd r) = end_char ent \<and>
                        dict_get pc' (ent_text text ent) = Some (snd (snd r)))
             (filter (in_scope pm) ents) new"
      by blast
    have "dict_get pc' (ent_text text ent) = Some p"
      using ents_loop_mono [OF seen(4) seen(3)] .
    with l seen(2) have "list_all2 (\<lambda>ent r. fst r = start_char ent \<and> fst (snd r) = end_char ent \<and>
                        dict_get pc' (ent_text text ent) = Some (snd (snd r)))
             (filter (in_scope pm) (ent # ents)) ((start_char ent, end_char ent, p) # new)"
      by simp
    with n show ?thesis by simp
  next
    case (new w)
    let ?t = "ent_text text ent"
    let ?v = "w @ ustr ''_'' @ str_nat (length pc + 1)"
    from Cons.IH [OF new(4)] obtain new' where
      n: "reps' = (reps @ [(start_char ent, end_char ent, ?v)]) @ new'"
      and l: "list_all2 (\<lambda>ent r. fst r = start_char ent \<and> fst (snd r) = end_char ent \<and>
                        dict_get pc' (ent_text text ent) = Some (snd (snd r)))
             (filter (in_scope pm) ents) new'"
      by blast
    have "dict_get (pc @ [(?t, ?v)]) ?t = Some ?v"
      using new(3) by (simp add: dict_get_append) (simp add: dict_get_def)
    then have "dict_get pc' ?t = Some ?v"
      using ents_loop_mono [OF new(4)] by blast
    with l new(2) have "list_all2 (\<lambda>ent r. fst r = start_char ent \<and> fst (snd r) = end_char ent \<and>
                        dict_get pc' (ent_text text ent) = Some (snd (snd r)))
             (filter (in_scope pm) (ent # ents)) ((start_char ent, end_char ent, ?v) # new')"
      by simp
    with n show ?thesis by simp
  qed
qed

lemma added_key_fresh:
  assumes "map fst added = first_seen (filter (\<lambda>t. t \<notin> fst ` set pc) ts)" and "k < length added"
  shows "fst (added ! k) \<notin> fst ` set pc"
proof -
  from assms(2) have "fst (added ! k) \<in> set (map fst added)"
    by (metis length_map nth_map nth_mem)
  with assms(1) show ?thesis by (simp add: set_first_seen)
qed

lemma ents_loop_values:
  assumes "ents_loop text pm (pc, reps) ents = Inr (pc @ added, reps')"
  shows "\<forall>k<length added. \<exists>e0 w.
           find (\<lambda>e. ent_text text e = fst (added ! k)) (filter (in_scope pm) ents) = Some e0 \<and>
           dict_get pm (label e0) = Some w \<and>
           snd (added ! k) = w @ ustr ''_'' @ str_nat (length pc + k + 1)"
  using assms
proof (induction ents arbitrary: pc reps added)
  case Nil
  then show ?case by simp
next
  case (Cons ent ents)
  from Cons.prems show ?case
  proof (cases rule: ents_loop_Cons_cases)
    case skip
    with Cons.IH show ?thesis by simp
  next
    case (seen w p)
    from ents_loop_keys [OF seen(4)] have
      ks: "map fst added = first_seen (filter (\<lambda>t. t \<notin> fst ` set pc)
               (map (ent_text text) (filter (in_scope pm) ents)))"
      by simp
    have mem: "ent_text text ent \<in> fst ` set pc"
      using seen(3) dict_get_None_iff [of pc "ent_text text ent"] by auto
    show ?thesis
    proof (intro allI impI)
      fix k assume k: "k < length added"
      from added_key_fresh [OF ks k] mem have "ent_text text ent \<noteq> fst (added ! k)" by metis
      with Cons.IH [OF seen(4)] k seen(2) show "\<exists>e0 w.
           find (\<lambda>e. ent_text text e = fst (added ! k)) (filter (in_scope pm) (ent # ents)) = Some e0 \<and>
           dict_get pm (label e0) = Some w \<and>
           snd (added ! k) = w @ ustr ''_'' @ str_nat (length pc + k + 1)"
        by simp
    qed
  next
    case (new w)
    let ?t = "ent_text text ent"
    let ?v = "w @ ustr ''_'' @ str_nat (length pc + 1)"
    from ents_loop_keys [OF new(4)] obtain added' where
      a: "pc @ added = (pc @ [(?t, ?v)]) @ added'"
      and ks: "map fst added' = first_seen (filter (\<lambda>t. t \<notin> fst ` set (pc @ [(?t, ?v)]))
               (map (ent_text text) (filter (in_scope pm) ents)))"
      by blast
    from a have ad: "added = (?t, ?v) # added'" by simp
    from new(4) a have run: "ents_loop text pm (pc @ [(?t, ?v)],
              reps @ [(start_char ent, end_char ent, ?v)]) ents = Inr ((pc @ [(?t, ?v)]) @ added', reps')"
      by simp
    show ?thesis
    proof (intro allI impI)
      fix k assume k: "k < length added"
      show "\<exists>e0 w.
           find (\<lambda>e. ent_text text e = fst (added ! k)) (filter (in_scope pm) (ent # ents)) = Some e0 \<and>
           dict_get pm (label e0) = Some w \<and>
           snd (added ! k) = w @ ustr ''_'' @ str_nat (length pc + k + 1)"
      proof (cases k)
        case 0
        with ad new(1) new(2) show ?thesis by simp
      next
        case (Suc k')
        with k ad have k': "k' < length added'" by simp
        from added_key_fresh [OF ks k'] have "?t \<noteq> fst (added' ! k')" by auto
        with Cons.IH [OF run] k' Suc ad new(2) show ?thesis by simp
      qed
    qed
  qed
qed

lemma str_nat_digits: "d \<in> set (str_nat n) \<Longrightarrow> 48 \<le> d \<and> d \<le> 57"
proof (induction n rule: str_nat.induct)
  case (1 n)
  show ?case
  proof (cases "n < 10")
    case True
    with "1.prems" show ?thesis by (simp add: str_nat.simps [of n])
  next
    case False
    with "1.prems" have "d \<in> set (str_nat (n div 10)) \<or> d = 48 + n mod 10"
      by (auto simp: str_nat.simps [of n])
    with "1.IH" False show ?thesis by auto
  qed
qed

lemma undigits_str_nat: "undigits (str_nat n) = n"
proof (induction n rule: str_nat.induct)
  case (1 n)
  show ?case
  proof (cases "n < 10")
    case True
    then show ?thesis by (simp add: str_nat.simps [of n] undigits_def)
  next
    case False
    with "1.IH" show ?thesis by (simp add: str_nat.simps [of n] undigits_def)
  qed
qed

lemma str_nat_inj: "str_nat m = str_nat n \<Longrightarrow> m = n"
  by (metis undigits_str_nat)

lemma suffix_after_separator:
  assumes "a @ [c] @ d1 = b @ [c] @ d2" and "c \<notin> set d1" and "c \<notin> set d2"
  shows "d1 = d2"
proof -
  have tw: "takeWhile (\<lambda>x. x \<noteq> c) (rev (a @ [c] @ d)) = rev d" if "c \<notin> set d" for a d
  proof -
    have "takeWhile (\<lambda>x. x \<noteq> c) (rev d @ c # rev a) = takeWhile (\<lambda>x. x \<noteq> c) (rev d)"
      by (rule takeWhile_tail) simp
    also have "\<dots> = rev d"
      using that by (auto simp: takeWhile_eq_all_conv)
    finally show ?thesis by simp
  qed
  have "rev d1 = takeWhile (\<lambda>x. x \<noteq> c) (rev (a @ [c] @ d1))"
    by (rule tw [OF assms(2), symmetric])
  also have "\<dots> = takeWhile (\<lambda>x. x \<noteq> c) (rev (b @ [c] @ d2))"
    by (simp only: assms(1))
  also have "\<dots> = rev d2"
    by (rule tw [OF assms(3)])
  finally have "rev d1 = rev d2" .
  then show ?thesis by simp
qed

lemma placeholder_inj:
  assumes "w1 @ ustr ''_'' @ str_nat m = w2 @ ustr ''_'' @ str_nat n"
  shows "m = n"
proof -
  have u: "ustr ''_'' = [95]" by (simp add: ustr_def)
  have "95 \<notin> set (str_nat m)" "95 \<notin> set (str_nat n)"
    using str_nat_digits [of 95] by auto
  with assms u have "str_nat m = str_nat n"
    using suffix_after_separator [of w1 95 "str_nat m" w2 "str_nat n"] by simp
  then show ?thesis by (rule str_nat_inj)
qed

lemma ents_loop_initial:
  "\<exists>pc reps.
     ents_loop text (placeholder_mapping (lang nlp)) ([], []) (doc_ents nlp text) = Inr (pc, reps) \<and>
     anonymize_text text nlp = Inr (foldl apply_replacement text (sorted_replacements reps)) \<and>
     map fst pc = first_seen (map (ent_text text) (in_scope_ents text nlp)) \<and>
     list_all2 (\<lambda>ent r. fst r = start_char ent \<and> fst (snd r) = end_char ent \<and>
                  dict_get pc (ent_text text ent) = Some (snd (snd r)))
       (in_scope_ents text nlp) reps \<and>
     (\<forall>k<length pc. \<exists>e0 w.
        find (\<lambda>e. ent_text text e = fst (pc ! k)) (in_scope_ents text nlp) = Some e0 \<and>
        dict_get (placeholder_mapping (lang nlp)) (label e0) = Some w \<and>
        snd (pc ! k) = w @ ustr ''_'' @ str_nat (k + 1))"
proof -
  let ?pm = "placeholder_mapping (lang nlp)"
  obtain pc reps where
    run: "ents_loop text ?pm ([], []) (doc_ents nlp text) = Inr (pc, reps)"
    using ents_loop_total [where pc = "[]" and reps = "[]"] by fastforce
  then have an: "anonymize_text text nlp = Inr (foldl apply_replacement text (sorted_replacements reps))"
    by (simp add: anonymize_text_def)
  from ents_loop_keys [OF run] have
    ks: "map fst pc = first_seen (map (ent_text text) (in_scope_ents text nlp))"
    by (simp add: in_scope_ents_def)
  from ents_loop_replacements [OF run] have
    rs: "list_all2 (\<lambda>ent r. fst r = start_char ent \<and> fst (snd r) = end_char ent \<and>
                  dict_get pc (ent_text text ent) = Some (snd (snd r)))
       (in_scope_ents text nlp) reps"
    by (simp add: in_scope_ents_def)
  from run have "ents_loop text ?pm ([], []) (doc_ents nlp text) = Inr ([] @ pc, reps)"
    by simp
  from ents_loop_values [OF this] have
    vs: "\<forall>k<length pc. \<exists>e0 w.
        find (\<lambda>e. ent_text text e = fst (pc ! k)) (in_scope_ents text nlp) = Some e0 \<and>
        dict_get ?pm (label e0) = Some w \<and>
        snd (pc ! k) = w @ ustr ''_'' @ str_nat (k + 1)"
    by (simp add: in_scope_ents_def)
  from run an ks rs vs show ?thesis by blast
qed

lemma dict_get_nth:
  assumes "dict_get d k = Some v"
  shows "\<exists>i<length d. d ! i = (k, v)"
proof -
  from assms have "(k, v) \<in> set d" by (simp add: dict_get_def map_of_SomeD)
  then show ?thesis by (simp add: in_set_conv_nth)
qed

lemma str_nat_1: "str_nat (Suc 0) = [49]"
  by (simp add: str_nat.simps [of "Suc 0"])

lemma anonymize_text_single:
  assumes "doc_ents nlp text = [ent]"
    and "dict_get (placeholder_mapping (lang nlp)) (label ent) = Some w"
  shows "anonymize_text text nlp =
           Inr (py_upto text (start_char ent) @ (w @ ustr ''_1'') @ py_from text (end_char ent))"
proof -
  have "ustr ''_'' @ str_nat (Suc 0) = ustr ''_1''" by (simp add: str_nat_1 ustr_def)
  then have "w @ ustr ''_'' @ str_nat (Suc 0) = w @ ustr ''_1''" by simp
  with assms show ?thesis
    by (simp add: anonymize_text_def ent_step_new dict_get_def sorted_replacements_def
        apply_replacement_def)
qed

lemma first_seen_snoc:
  "first_seen (xs @ [y]) = (if y \<in> set xs then first_seen xs else first_seen xs @ [y])"
  by (induction xs) auto

text \<open>An element listed later in \<open>first_seen xs\<close> occurs in \<open>xs\<close> only after an occurrence
  of every element listed earlier.\<close>

lemma first_seen_order:
  assumes "k < k'" and "k' < length (first_seen xs)"
    and "i' < length xs" and "xs ! i' = first_seen xs ! k'"
  shows "\<exists>i<i'. xs ! i = first_seen xs ! k"
  using assms
proof (induction xs arbitrary: i' rule: rev_induct)
  case Nil
  then show ?case by simp
next
  case (snoc y xs)
  show ?case
  proof (cases "y \<in> set xs")
    case True
    then have fs: "first_seen (xs @ [y]) = first_seen xs" by (simp add: first_seen_snoc)
    from True obtain i'' where i'': "i'' < length xs" "xs ! i'' = y"
      by (auto simp: in_set_conv_nth)
    show ?thesis
    proof (cases "i' < length xs")
      case True
      with snoc.prems fs have "\<exists>i<i'. xs ! i = first_seen xs ! k"
        by (intro snoc.IH) (simp_all add: nth_append)
      then obtain i where "i < i'" "xs ! i = first_seen xs ! k" by blast
      with True fs show ?thesis by (intro exI [of _ i]) (simp add: nth_append)
    next
      case False
      with snoc.prems(3) have i': "i' = length xs" by simp
      with snoc.prems(4) fs have "y = first_seen xs ! k'" by simp
      with snoc.prems(1,2) fs i'' have "\<exists>i<i''. xs ! i = first_seen xs ! k"
        by (intro snoc.IH) simp_all
      then obtain i where "i < i''" "xs ! i = first_seen xs ! k" by blast
      with i''(1) i' fs show ?thesis by (intro exI [of _ i]) (simp add: nth_append)
    qed
  next
    case False
    then have fs: "first_seen (xs @ [y]) = first_seen xs @ [y]" by (simp add: first_seen_snoc)
    show ?thesis
    proof (cases "k' < length (first_seen xs)")
      case True
      with fs have e: "first_seen (xs @ [y]) ! k' = first_seen xs ! k'" by (simp add: nth_append)
      from True have "first_seen xs ! k' \<in> set xs"
        using nth_mem [of k' "first_seen xs"] by (simp add: set_first_seen)
      with False have "first_seen xs ! k' \<noteq> y" by auto
      with snoc.prems(3,4) e have i': "i' < length xs"
        by (cases "i' = length xs") auto
      with snoc.prems e True have "\<exists>i<i'. xs ! i = first_seen xs ! k"
        by (intro snoc.IH) (simp_all add: nth_append)
      then obtain i where "i < i'" "xs ! i = first_seen xs ! k" by blast
      with i' snoc.prems(1) True fs show ?thesis
        by (intro exI [of _ i]) (simp add: nth_append)
    next
      case nolt: False
      with snoc.prems(2) fs have k': "k' = length (first_seen xs)" by simp
      with snoc.prems(4) fs have "(xs @ [y]) ! i' = y" by simp
      with False snoc.prems(3) have i': "i' = length xs"
        by (cases "i' = length xs") (auto simp: nth_append)
      from snoc.prems(1) k' have "first_seen xs ! k \<in> set xs"
        using nth_mem [of k "first_seen xs"] by (simp add: set_first_seen)
      then obtain i where "i < length xs" "xs ! i = first_seen xs ! k"
        by (auto simp: in_set_conv_nth)
      with i' snoc.prems(1) k' fs show ?thesis
        by (intro exI [of _ i]) (simp add: nth_append)
    qed
  qed
qed

lemma list_all2_map_eq:
  assumes "list_all2 P xs ys" and "\<And>x y. P x y \<Longrightarrow> f y = g x"
  shows "map f ys = map g xs"
  using assms by (induction rule: list_all2_induct) simp_all

section \<open>The second loop\<close>

lemma apply_replacement_valid:
  assumes "valid_span text (s, e)"
  shows "apply_replacement text (s, e, p) = take (nat s) text @ p @ drop (nat e) text"
  using assms
  by (simp add: apply_replacement_def valid_span_def py_upto_def py_from_def slice_index_def)

lemma foldl_apply_append:
  assumes "sorted_wrt (\<lambda>a b. snd (span_of b) \<le> fst (span_of a)) L"
    and "\<forall>r\<in>set L. valid_span P (span_of r)"
  shows "foldl apply_replacement (P @ Q) L = foldl apply_replacement P L @ Q"
  using assms
proof (induction L arbitrary: P)
  case Nil
  then show ?case by simp
next
  case (Cons r rs)
  obtain s e p where r: "r = (s, e, p)" by (cases r)
  from Cons.prems(2) r have v: "valid_span P (s, e)" by (simp add: span_of_def)
  then have vq: "valid_span (P @ Q) (s, e)" by (simp add: valid_span_def)
  from v have le: "nat s \<le> length P" "nat e \<le> length P" by (auto simp: valid_span_def)
  have step: "apply_replacement (P @ Q) r = apply_replacement P r @ Q"
    using le by (simp add: r apply_replacement_valid [OF v] apply_replacement_valid [OF vq])
  have "\<forall>r'\<in>set rs. valid_span (apply_replacement P r) (span_of r')"
  proof
    fix r' assume m: "r' \<in> set rs"
    with Cons.prems(1) r have "snd (span_of r') \<le> s" by (simp add: span_of_def)
    moreover from m Cons.prems(2) have "valid_span P (span_of r')" by simp
    moreover have "nat s \<le> length (apply_replacement P r)"
      using le by (simp add: r apply_replacement_valid [OF v])
    ultimately show "valid_span (apply_replacement P r) (span_of r')"
      by (auto simp: valid_span_def)
  qed
  with Cons.IH [of "apply_replacement P r"] Cons.prems(1) step show ?case by simp
qed

lemma rewrite_from_snoc:
  assumes "\<forall>r\<in>set A. fst (span_of r) \<le> s"
  shows "rewrite_from pos text (A @ [(s, e, p)]) =
           rewrite_from pos (take (nat s) text) A @ p @ drop (nat e) text"
  using assms
proof (induction A arbitrary: pos)
  case Nil
  show ?case by (simp add: drop_take)
next
  case (Cons r A)
  obtain s' e' p' where r: "r = (s', e', p')" by (cases r)
  from Cons.prems r have "s' \<le> s" by (simp add: span_of_def)
  then have "take (nat s' - pos) (drop pos (take (nat s) text)) = take (nat s' - pos) (drop pos text)"
    by (simp add: drop_take min_def)
  with Cons show ?case by (simp add: r)
qed

lemma foldl_apply_rewrite:
  assumes "sorted_wrt (\<lambda>a b. snd (span_of b) \<le> fst (span_of a)) L"
    and "\<forall>r\<in>set L. valid_span t (span_of r)"
  shows "foldl apply_replacement t L = rewrite_from 0 t (rev L)"
  using assms
proof (induction L arbitrary: t)
  case Nil
  then show ?case by simp
next
  case (Cons r rs)
  obtain s e p where r: "r = (s, e, p)" by (cases r)
  from Cons.prems(2) r have v: "valid_span t (s, e)" by (simp add: span_of_def)
  have inner: "\<forall>r'\<in>set rs. valid_span (take (nat s) t) (span_of r')"
  proof
    fix r' assume m: "r' \<in> set rs"
    with Cons.prems(1) r have "snd (span_of r') \<le> s" by (simp add: span_of_def)
    moreover from m Cons.prems(2) have "valid_span t (span_of r')" by simp
    ultimately show "valid_span (take (nat s) t) (span_of r')"
      using v by (auto simp: valid_span_def)
  qed
  from Cons.prems(1) have sw: "sorted_wrt (\<lambda>a b. snd (span_of b) \<le> fst (span_of a)) rs" by simp
  have starts: "\<forall>r'\<in>set (rev rs). fst (span_of r') \<le> s"
  proof
    fix r' assume "r' \<in> set (rev rs)"
    then have m: "r' \<in> set rs" by simp
    with Cons.prems(1) r have "snd (span_of r') \<le> s" by (simp add: span_of_def)
    moreover from m Cons.prems(2) have "valid_span t (span_of r')" by simp
    ultimately show "fst (span_of r') \<le> s" by (simp add: valid_span_def)
  qed
  have "foldl apply_replacement t (r # rs) =
          foldl apply_replacement (take (nat s) t @ (p @ drop (nat e) t)) rs"
    by (simp add: r apply_replacement_valid [OF v])
  also have "\<dots> = foldl apply_replacement (take (nat s) t) rs @ (p @ drop (nat e) t)"
    by (rule foldl_apply_append [OF sw inner])
  also have "\<dots> = rewrite_from 0 (take (nat s) t) (rev rs) @ p @ drop (nat e) t"
    using Cons.IH [OF sw inner] by simp
  also have "\<dots> = rewrite_from 0 t (rev rs @ [(s, e, p)])"
    by (rule rewrite_from_snoc [OF starts, symmetric])
  finally show ?case by (simp add: r)
qed

lemma sorted_wrt_insort_key:
  assumes "sorted_wrt R ys" and "sorted (map f ys)"
    and "\<forall>y\<in>set ys. f y < f x \<longrightarrow> R y x"
    and "\<forall>y\<in>set ys. f x \<le> f y \<longrightarrow> R x y"
  shows "sorted_wrt R (insort_key f x ys)"
  using assms
proof (induction ys)
  case Nil
  then show ?case by simp
next
  case (Cons y ys)
  show ?case
  proof (cases "f x \<le> f y")
    case True
    with Cons.prems(2) have "\<forall>z\<in>set (y # ys). f x \<le> f z" by auto
    with Cons.prems(4) have "\<forall>z\<in>set (y # ys). R x z" by blast
    with Cons.prems(1) True show ?thesis by simp
  next
    case False
    with Cons.prems(3) have "R y x" by simp
    moreover from Cons.prems(1) have "\<forall>z\<in>set ys. R y z" by simp
    moreover have "sorted_wrt R (insort_key f x ys)"
      using Cons.IH Cons.prems by simp
    ultimately show ?thesis using False by (simp add: set_insort_key)
  qed
qed

text \<open>In the processing order every later replacement ends at or before the start of
  every earlier one.\<close>

lemma processing_order_separated:
  assumes "list_all (valid_span t) (map span_of reps)"
    and "non_overlapping (map span_of reps)"
    and "no_empty_before (map span_of reps)"
  shows "sorted_wrt (\<lambda>a b. snd (span_of b) \<le> fst (span_of a)) (sorted_replacements reps)"
  using assms
proof (induction reps)
  case Nil
  then show ?case by (simp add: sorted_replacements_def)
next
  case (Cons x xs)
  let ?R = "\<lambda>a b. snd (span_of b) \<le> fst (span_of a)"
  let ?f = "\<lambda>x::replacement. - fst x"
  from Cons have IH: "sorted_wrt ?R (sort_key ?f xs)"
    by (simp add: sorted_replacements_def)
  have vx: "valid_span t (span_of x)" using Cons.prems(1) by simp
  have before: "\<forall>y\<in>set (sort_key ?f xs). ?f y < ?f x \<longrightarrow> ?R y x"
  proof (intro ballI impI)
    fix y assume "y \<in> set (sort_key ?f xs)" and lt: "?f y < ?f x"
    then have m: "y \<in> set xs" by simp
    with Cons.prems(2) have "disjoint_spans (span_of x) (span_of y)"
      by (simp add: list_all_iff)
    moreover from m Cons.prems(1) have "valid_span t (span_of y)" by (simp add: list_all_iff)
    ultimately show "?R y x" using lt vx
      by (auto simp: disjoint_spans_def valid_span_def span_of_def)
  qed
  have after: "\<forall>y\<in>set (sort_key ?f xs). ?f x \<le> ?f y \<longrightarrow> ?R x y"
  proof (intro ballI impI)
    fix y assume "y \<in> set (sort_key ?f xs)" and le: "?f x \<le> ?f y"
    then have m: "y \<in> set xs" by simp
    with Cons.prems(2) have "disjoint_spans (span_of x) (span_of y)"
      by (simp add: list_all_iff)
    moreover from m Cons.prems(3) have "\<not> empty_before (span_of x) (span_of y)"
      by (simp add: list_all_iff)
    moreover from m Cons.prems(1) have "valid_span t (span_of y)" by (simp add: list_all_iff)
    ultimately show "?R x y" using le vx
      by (auto simp: disjoint_spans_def empty_before_def valid_span_def span_of_def)
  qed
  have "sorted (map ?f (sort_key ?f xs))" by (rule sorted_sort_key)
  from sorted_wrt_insort_key [OF IH this before after] show ?case
    by (simp add: sorted_replacements_def)
qed

lemma processing_order_descending:
  "sorted_wrt (\<lambda>a b. fst b \<le> fst a) (sorted_replacements reps)"
proof -
  have "sorted (map (\<lambda>x::replacement. - fst x) (sorted_replacements reps))"
    unfolding sorted_replacements_def by (rule sorted_sort_key)
  then show ?thesis by (simp add: sorted_map)
qed

text \<open>The processing order, read backwards, is the left-to-right order.\<close>

lemma rev_processing_order:
  assumes "sorted_wrt (\<lambda>a b. snd (span_of b) \<le> fst (span_of a)) (sorted_replacements reps)"
    and "list_all (valid_span t) (map span_of reps)"
    and "inj_on span_of (set reps)"
  shows "left_to_right reps = rev (sorted_replacements reps)"
  unfolding left_to_right_def
proof (rule sort_key_inj_key_eq)
  show "mset reps = mset (rev (sorted_replacements reps))"
    by (simp add: sorted_replacements_def)
  show "inj_on span_of (set reps)" by fact
  have v: "valid_span t (span_of r)" if "r \<in> set (sorted_replacements reps)" for r
    using that assms(2) by (simp add: sorted_replacements_def list_all_iff)
  have "sorted_wrt (\<lambda>a b. span_of b \<le> span_of a) (sorted_replacements reps)"
  proof (rule sorted_wrt_mono_rel [OF _ assms(1)])
    fix a b assume "a \<in> set (sorted_replacements reps)" "b \<in> set (sorted_replacements reps)"
      and "snd (span_of b) \<le> fst (span_of a)"
    with v [of a] v [of b] show "span_of b \<le> span_of a"
      by (auto simp: less_eq_prod_def valid_span_def)
  qed
  then show "sorted (map span_of (rev (sorted_replacements reps)))"
    by (simp add: sorted_map sorted_wrt_rev)
qed

text \<open>While the replacements are applied, the text up to the start of the last applied
  one is still the original text.\<close>

lemma prefix_untouched:
  assumes "sorted_wrt (\<lambda>a b. snd (span_of b) \<le> fst (span_of a)) L"
    and "\<forall>r\<in>set L. valid_span t (span_of r)"
    and "L \<noteq> []"
  shows "\<exists>X. foldl apply_replacement t L = take (nat (fst (last L))) t @ X"
  using assms
proof (induction L rule: rev_induct)
  case Nil
  then show ?case by simp
next
  case (snoc r L)
  obtain s e p where r: "r = (s, e, p)" by (cases r)
  from snoc.prems(2) r have v: "valid_span t (s, e)" by (simp add: span_of_def)
  let ?T = "foldl apply_replacement t L"
  have pre: "take (nat s) ?T = take (nat s) t \<and> nat e \<le> length ?T"
  proof (cases "L = []")
    case True
    with v show ?thesis by (auto simp: valid_span_def)
  next
    case False
    from snoc.prems(1) have sw: "sorted_wrt (\<lambda>a b. snd (span_of b) \<le> fst (span_of a)) L"
      by (simp add: sorted_wrt_append)
    from snoc.IH [OF sw] snoc.prems(2) False obtain X where
      X: "?T = take (nat (fst (last L))) t @ X" by auto
    from False have "last L \<in> set L" by simp
    with snoc.prems(1) r have le: "e \<le> fst (last L)"
      by (simp add: sorted_wrt_append span_of_def)
    from \<open>last L \<in> set L\<close> snoc.prems(2) have "valid_span t (span_of (last L))" by simp
    then have "nat (fst (last L)) \<le> length t" by (auto simp: valid_span_def span_of_def)
    with le v X show ?thesis by (auto simp: valid_span_def)
  qed
  then have vT: "valid_span ?T (s, e)" using v by (auto simp: valid_span_def)
  have "foldl apply_replacement t (L @ [r]) = take (nat s) t @ (p @ drop (nat e) ?T)"
    using pre by (simp add: r apply_replacement_valid [OF vT])
  then show ?case by (auto simp: r)
qed

lemma not_yet_processed_untouched:
  assumes "sorted_wrt (\<lambda>a b. snd (span_of b) \<le> fst (span_of a)) L"
    and "\<forall>r\<in>set L. valid_span t (span_of r)"
    and "k \<le> j" and "j < length L"
  shows "take (nat (snd (span_of (L ! j)))) (foldl apply_replacement t (take k L))
           = take (nat (snd (span_of (L ! j)))) t"
proof (cases k)
  case 0
  then show ?thesis by simp
next
  case (Suc k')
  let ?P = "take k L"
  from Suc assms(3,4) have ne: "?P \<noteq> []" by auto
  have sw: "sorted_wrt (\<lambda>a b. snd (span_of b) \<le> fst (span_of a)) ?P"
    using assms(1) by (rule sorted_wrt_take)
  have vs: "\<forall>r\<in>set ?P. valid_span t (span_of r)"
    using assms(2) by (meson in_set_takeD)
  from prefix_untouched [OF sw vs ne] obtain X where
    X: "foldl apply_replacement t ?P = take (nat (fst (last ?P))) t @ X" by blast
  have lastP: "last ?P = L ! k'"
    using Suc assms(3,4) by (simp add: take_Suc_conv_app_nth)
  from Suc assms(3,4) have "k' < j" by simp
  with assms(1,4) have "snd (span_of (L ! j)) \<le> fst (span_of (L ! k'))"
    by (simp add: sorted_wrt_iff_nth_less)
  moreover have "valid_span t (span_of (L ! k'))"
    using assms(2,4) \<open>k' < j\<close> by simp
  ultimately have "nat (snd (span_of (L ! j))) \<le> length (take (nat (fst (L ! k'))) t)"
    by (auto simp: valid_span_def span_of_def)
  with X lastP show ?thesis by simp
qed

lemma ents_loop_spans:
  assumes "list_all2 (\<lambda>ent r. fst r = start_char ent \<and> fst (snd r) = end_char ent \<and>
                  dict_get pc (ent_text t ent) = Some (snd (snd r))) F reps"
  shows "map span_of reps = spans F" and "inj_on span_of (set reps)"
proof -
  show "map span_of reps = spans F"
    unfolding spans_def by (rule list_all2_map_eq [OF assms]) (simp add: span_of_def)
  have key: "dict_get pc (py_slice t (fst r) (fst (snd r))) = Some (snd (snd r))"
    if "r \<in> set reps" for r
  proof -
    from that obtain i where i: "i < length reps" "reps ! i = r"
      by (auto simp: in_set_conv_nth)
    with assms have "fst r = start_char (F ! i) \<and> fst (snd r) = end_char (F ! i) \<and>
                  dict_get pc (ent_text t (F ! i)) = Some (snd (snd r))"
      by (auto simp: list_all2_conv_all_nth)
    then show ?thesis by (simp add: ent_text_def)
  qed
  show "inj_on span_of (set reps)"
  proof (rule inj_onI)
    fix a b assume a: "a \<in> set reps" and b: "b \<in> set reps" and eq: "span_of a = span_of b"
    from eq have e: "fst a = fst b" "fst (snd a) = fst (snd b)" by (simp_all add: span_of_def)
    with key [OF a] key [OF b] have "snd (snd a) = snd (snd b)" by simp
    with e show "a = b" by (simp add: prod_eq_iff)
  qed
qed

section \<open>Characters outside the spans\<close>

lemma uncovered_split:
  assumes "a \<le> b" and "b \<le> c"
  shows "uncovered t cov a c = uncovered t cov a b @ uncovered t cov b c"
proof -
  from assms have "[a..<c] = [a..<b] @ [b..<c]"
    using upt_add_eq_append [of a b "c - b"] by simp
  then show ?thesis by (simp add: uncovered_def)
qed

lemma uncovered_subseq:
  assumes "b \<le> length t"
  shows "subseq (uncovered t cov a b) (take (b - a) (drop a t))"
proof -
  have "take (b - a) (drop a t) = map (\<lambda>i. t ! i) [a..<b]"
  proof (rule nth_equalityI)
    show "length (take (b - a) (drop a t)) = length (map (\<lambda>i. t ! i) [a..<b])"
      using assms by simp
    fix i assume "i < length (take (b - a) (drop a t))"
    then show "take (b - a) (drop a t) ! i = map (\<lambda>i. t ! i) [a..<b] ! i"
      using assms by simp
  qed
  moreover have "subseq (map (\<lambda>i. t ! i) (filter (\<lambda>i. \<not> cov i) [a..<b])) (map (\<lambda>i. t ! i) [a..<b])"
    by (rule subseq_map) simp
  ultimately show ?thesis by (simp add: uncovered_def)
qed

lemma uncovered_empty:
  assumes "\<forall>i. a \<le> i \<and> i < b \<longrightarrow> cov i"
  shows "uncovered t cov a b = []"
  using assms by (simp add: uncovered_def filter_empty_conv)

lemma uncovered_subseq_drop: "subseq (uncovered t cov a (length t)) (drop a t)"
  using uncovered_subseq [of "length t" t cov a] by simp

lemma splice_triple: "splice t (s, e, p) = take s t @ p @ drop e t"
  by (simp add: splice_def)

text \<open>
  The invariant of the second loop, for a property \<open>G q Y\<close> of a position \<open>q\<close> of the
  original text and a suffix \<open>Y\<close> of the current text: \<open>G\<close> holds of the untouched rest
  of the text, is kept when something is put in front of \<open>Y\<close>, and passes from inside
  a span \<open>S s e\<close> to any position at or before its start.
\<close>

lemma splice_invariant:
  fixes G :: "nat \<Rightarrow> 'a list \<Rightarrow> bool"
  assumes base: "\<And>q. q \<le> length t \<Longrightarrow> G q (drop q t)"
    and ext: "\<And>q X Y. G q Y \<Longrightarrow> G q (X @ Y)"
    and seg: "\<And>s e e' q X Y. S s e \<Longrightarrow> q \<le> s \<Longrightarrow> s \<le> e' \<Longrightarrow> e' \<le> e \<Longrightarrow> e \<le> length t \<Longrightarrow>
           G e' Y \<Longrightarrow> G q (take (s - q) (drop q t) @ X @ Y)"
  shows "(\<forall>r\<in>set L. fst r \<le> fst (snd r) \<and> fst (snd r) \<le> length t) \<Longrightarrow>
    sorted_wrt (\<lambda>a b. fst b \<le> fst a) L \<Longrightarrow>
    sorted_wrt (\<lambda>a b. fst (snd a) \<le> fst b \<or> fst (snd b) \<le> fst a) L \<Longrightarrow>
    (\<forall>r\<in>set L. S (fst r) (fst (snd r))) \<Longrightarrow>
    q \<le> length t \<Longrightarrow>
    (\<forall>r\<in>set L. q \<le> fst r \<or> (fst r = fst (snd r) \<and> (\<forall>r'\<in>set L. fst r \<le> fst r'))) \<Longrightarrow>
    \<exists>m Z Y. m = (if L = [] then q else min q (fst (last L))) \<and>
           foldl splice t L = take m t @ Z @ take (q - m) (drop m t) @ Y \<and> G q Y"
proof (induction L arbitrary: q rule: rev_induct)
  case Nil
  have "foldl splice t [] = take q t @ [] @ take (q - q) (drop q t) @ drop q t" by simp
  moreover have "G q (drop q t)" using Nil.prems(5) by (rule base)
  ultimately show ?case by (intro exI [of _ q] exI [of _ "[]"] exI [of _ "drop q t"]) simp
next
  case (snoc r L)
  obtain s e p where r: "r = (s, e, p)" by (cases r)
  from snoc.prems(1) have vL: "\<forall>r\<in>set L. fst r \<le> fst (snd r) \<and> fst (snd r) \<le> length t"
    and se: "s \<le> e" "e \<le> length t" by (simp_all add: r)
  from snoc.prems(2) have dL: "sorted_wrt (\<lambda>a b. fst b \<le> fst a) L"
    and low: "\<forall>x\<in>set L. s \<le> fst x" by (simp_all add: sorted_wrt_append r)
  from snoc.prems(3) have jL: "sorted_wrt (\<lambda>a b. fst (snd a) \<le> fst b \<or> fst (snd b) \<le> fst a) L"
    and dis: "\<forall>x\<in>set L. fst (snd x) \<le> s \<or> e \<le> fst x" by (simp_all add: sorted_wrt_append r)
  from snoc.prems(4) have cL: "\<forall>r\<in>set L. S (fst r) (fst (snd r))"
    and cr: "S s e" by (simp_all add: r)
  note IH = snoc.IH [OF vL dL jL cL]
  let ?T = "foldl splice t L"
  let ?len = "length t"
  have T': "foldl splice t (L @ [r]) = take s ?T @ p @ drop e ?T"
    by (simp add: splice_triple r)
  from snoc.prems(6) have condr: "q \<le> s \<or> s = e" by (auto simp: r)
  from snoc.prems(5) have q: "q \<le> ?len" .
  have lastL: "s \<le> fst (last L)" if "L \<noteq> []"
    using that low by simp
  have goal: "\<exists>Z Y. take s ?T @ p @ drop e ?T = take (min q s) t @ Z @ take (q - min q s) (drop (min q s) t) @ Y \<and>
           G q Y"
  proof (cases "s < e")
    case True
    with condr have qs: "q \<le> s" by simp
    have condL: "\<forall>r'\<in>set L. e \<le> fst r' \<or> (fst r' = fst (snd r') \<and> (\<forall>r''\<in>set L. fst r' \<le> fst r''))"
    proof
      fix r' assume m: "r' \<in> set L"
      show "e \<le> fst r' \<or> (fst r' = fst (snd r') \<and> (\<forall>r''\<in>set L. fst r' \<le> fst r''))"
      proof (cases "e \<le> fst r'")
        case True
        then show ?thesis by simp
      next
        case False
        with dis m have "fst (snd r') \<le> s" by blast
        with vL low m have "fst r' = s" "fst (snd r') = s" by fastforce+
        with low show ?thesis by simp
      qed
    qed
    from IH [OF se(2) condL] obtain m0 Z0 Y0 where
      m0: "m0 = (if L = [] then e else min e (fst (last L)))"
      and T: "?T = take m0 t @ Z0 @ take (e - m0) (drop m0 t) @ Y0"
      and sub: "G e Y0" by blast
    from m0 se lastL have sm0: "s \<le> m0" "m0 \<le> e" by (auto split: if_splits)
    have pre: "take s ?T = take s t"
      using sm0 se by (subst T) (simp add: min_def)
    define J where "J = drop (e - m0) (Z0 @ take (e - m0) (drop m0 t))"
    have suf: "drop e ?T = J @ Y0"
      using sm0 se by (subst T) (simp add: J_def min_def)
    have "take s t = take q t @ take (s - q) (drop q t)"
      using qs take_add [of q "s - q" t] by simp
    with pre suf have eq: "take s ?T @ p @ drop e ?T =
        take (min q s) t @ [] @ take (q - min q s) (drop (min q s) t) @ (take (s - q) (drop q t) @ (p @ J) @ Y0)"
      using qs by (simp add: min_def)
    have "G q (take (s - q) (drop q t) @ (p @ J) @ Y0)"
      using cr qs se(1) _ se(2) sub by (rule seg) simp
    with eq show ?thesis by blast
  next
    case False
    with se have es: "e = s" by simp
    show ?thesis
    proof (cases "q \<le> s")
      case True
      have condL: "\<forall>r'\<in>set L. s \<le> fst r' \<or> (fst r' = fst (snd r') \<and> (\<forall>r''\<in>set L. fst r' \<le> fst r''))"
        using low by simp
      from se es have sl: "s \<le> ?len" by simp
      from IH [OF this condL] obtain m0 Z0 Y0 where
        m0: "m0 = (if L = [] then s else min s (fst (last L)))"
        and T: "?T = take m0 t @ Z0 @ take (s - m0) (drop m0 t) @ Y0"
        and sub: "G s Y0" by blast
      from m0 lastL have "m0 = s" by (auto split: if_splits)
      with T have T2: "?T = take s t @ Z0 @ Y0" by simp
      have pre: "take s ?T = take s t" using sl by (subst T2) simp
      have suf: "drop s ?T = Z0 @ Y0" using sl by (subst T2) simp
      have "take s t = take q t @ take (s - q) (drop q t)"
        using True take_add [of q "s - q" t] by simp
      with pre suf es have eq: "take s ?T @ p @ drop e ?T =
          take (min q s) t @ [] @ take (q - min q s) (drop (min q s) t) @ (take (s - q) (drop q t) @ (p @ Z0) @ Y0)"
        using True by (simp add: min_def)
      have "G q (take (s - q) (drop q t) @ (p @ Z0) @ Y0)"
        using cr True _ se(1) se(2) sub by (rule seg) simp
      with eq show ?thesis by blast
    next
      case False
      then have sq: "s < q" by simp
      have condL: "\<forall>r'\<in>set L. q \<le> fst r' \<or> (fst r' = fst (snd r') \<and> (\<forall>r''\<in>set L. fst r' \<le> fst r''))"
      proof
        fix r' assume m: "r' \<in> set L"
        with snoc.prems(6) have "q \<le> fst r' \<or> (fst r' = fst (snd r') \<and> (\<forall>r''\<in>set (L @ [r]). fst r' \<le> fst r''))"
          by simp
        then show "q \<le> fst r' \<or> (fst r' = fst (snd r') \<and> (\<forall>r''\<in>set L. fst r' \<le> fst r''))"
          by auto
      qed
      from IH [OF q condL] obtain m0 Z0 Y0 where
        m0: "m0 = (if L = [] then q else min q (fst (last L)))"
        and T: "?T = take m0 t @ Z0 @ take (q - m0) (drop m0 t) @ Y0"
        and sub: "G q Y0" by blast
      from m0 lastL sq have sm0: "s \<le> m0" "m0 \<le> q" by (auto split: if_splits)
      have pre: "take s ?T = take s t"
        using sm0 q by (subst T) (simp add: min_def)
      have suf: "drop s ?T = take (m0 - s) (drop s t) @ Z0 @ take (q - m0) (drop m0 t) @ Y0"
        using sm0 q by (subst T) (simp add: min_def drop_take)
      show ?thesis
      proof (cases "m0 = s")
        case True
        with pre suf es sq have "take s ?T @ p @ drop e ?T =
            take (min q s) t @ (p @ Z0) @ take (q - min q s) (drop (min q s) t) @ Y0"
          by (simp add: min_def)
        with sub show ?thesis by blast
      next
        case False
        have "m0 = q"
        proof (cases "L = []")
          case True
          with m0 show ?thesis by simp
        next
          case nonempty: False
          then have mem: "last L \<in> set L" by simp
          with snoc.prems(6) have "q \<le> fst (last L) \<or> fst (last L) \<le> fst r"
            by auto
          moreover have "\<not> fst (last L) \<le> s"
            using False m0 nonempty sm0 by (auto simp: min_def split: if_splits)
          ultimately have "q \<le> fst (last L)" by (simp add: r)
          with m0 nonempty show ?thesis by simp
        qed
        with suf have suf2: "drop s ?T = take (q - s) (drop s t) @ Z0 @ Y0" by simp
        with pre es sq have "take s ?T @ p @ drop e ?T =
            take (min q s) t @ p @ take (q - min q s) (drop (min q s) t) @ (Z0 @ Y0)"
          by (simp add: min_def)
        moreover have "G q (Z0 @ Y0)"
          using sub by (rule ext)
        ultimately show ?thesis by blast
      qed
    qed
  qed
  then show ?case by (simp add: splice_triple r)
qed

text \<open>At the end of the loop the property holds of the whole result, from position 0.\<close>

lemma splice_preserves:
  fixes G :: "nat \<Rightarrow> 'a list \<Rightarrow> bool"
  assumes base: "\<And>q. q \<le> length t \<Longrightarrow> G q (drop q t)"
    and ext: "\<And>q X Y. G q Y \<Longrightarrow> G q (X @ Y)"
    and seg: "\<And>s e e' q X Y. S s e \<Longrightarrow> q \<le> s \<Longrightarrow> s \<le> e' \<Longrightarrow> e' \<le> e \<Longrightarrow> e \<le> length t \<Longrightarrow>
           G e' Y \<Longrightarrow> G q (take (s - q) (drop q t) @ X @ Y)"
    and valid: "\<forall>r\<in>set L. fst r \<le> fst (snd r) \<and> fst (snd r) \<le> length t"
    and desc: "sorted_wrt (\<lambda>a b. fst b \<le> fst a) L"
    and disj: "sorted_wrt (\<lambda>a b. fst (snd a) \<le> fst b \<or> fst (snd b) \<le> fst a) L"
    and inS: "\<forall>r\<in>set L. S (fst r) (fst (snd r))"
  shows "G 0 (foldl splice t L)"
proof (cases "L = []")
  case True
  with base [of 0] show ?thesis by simp
next
  case False
  let ?q = "fst (last L)"
  from False have mem: "last L \<in> set L" by simp
  with valid have q: "?q \<le> length t" and qe: "?q \<le> fst (snd (last L))"
    and el: "fst (snd (last L)) \<le> length t" by fastforce+
  have least: "\<forall>r\<in>set L. ?q \<le> fst r"
  proof
    fix r assume "r \<in> set L"
    then obtain i where i: "i < length L" "L ! i = r" by (auto simp: in_set_conv_nth)
    show "?q \<le> fst r"
    proof (cases "i = length L - 1")
      case True
      with i False show ?thesis by (simp add: last_conv_nth)
    next
      case False
      with i have "i < length L - 1" by simp
      with desc i \<open>L \<noteq> []\<close> show ?thesis
        by (auto simp: sorted_wrt_iff_nth_less last_conv_nth)
    qed
  qed
  then have cond: "\<forall>r\<in>set L. ?q \<le> fst r \<or> (fst r = fst (snd r) \<and> (\<forall>r'\<in>set L. fst r \<le> fst r'))"
    by simp
  have "\<exists>m Z Y. m = (if L = [] then ?q else min ?q (fst (last L))) \<and>
           foldl splice t L = take m t @ Z @ take (?q - m) (drop m t) @ Y \<and> G ?q Y"
  proof (rule splice_invariant [where G = G and S = S])
    show "\<And>q. q \<le> length t \<Longrightarrow> G q (drop q t)" by (rule base)
    show "\<And>q X Y. G q Y \<Longrightarrow> G q (X @ Y)" by (rule ext)
    show "\<And>s e e' q X Y. S s e \<Longrightarrow> q \<le> s \<Longrightarrow> s \<le> e' \<Longrightarrow> e' \<le> e \<Longrightarrow> e \<le> length t \<Longrightarrow>
           G e' Y \<Longrightarrow> G q (take (s - q) (drop q t) @ X @ Y)" by (rule seg)
  qed (fact valid desc disj inS q cond)+
  with False obtain Z Y where T: "foldl splice t L = take ?q t @ Z @ Y" and sub: "G ?q Y"
    by auto
  from mem inS have "S ?q (fst (snd (last L)))" by blast
  then have "G 0 (take (?q - 0) (drop 0 t) @ Z @ Y)"
    using _ _ qe el sub by (rule seg) simp_all
  then show ?thesis by (simp add: T)
qed

lemma splice_outside:
  assumes "\<forall>r\<in>set L. fst r \<le> fst (snd r) \<and> fst (snd r) \<le> length t"
    and "sorted_wrt (\<lambda>a b. fst b \<le> fst a) L"
    and "sorted_wrt (\<lambda>a b. fst (snd a) \<le> fst b \<or> fst (snd b) \<le> fst a) L"
    and "\<forall>r\<in>set L. \<forall>i. fst r \<le> i \<and> i < fst (snd r) \<longrightarrow> cov i"
  shows "subseq (uncovered t cov 0 (length t)) (foldl splice t L)"
proof (rule splice_preserves [where G = "\<lambda>q Y. subseq (uncovered t cov q (length t)) Y"
      and S = "\<lambda>s e. \<forall>i. s \<le> i \<and> i < e \<longrightarrow> cov i", OF _ _ _ assms(1-3)])
  show "subseq (uncovered t cov q (length t)) (drop q t)" for q
    by (rule uncovered_subseq_drop)
  show "subseq (uncovered t cov q (length t)) (X @ Y)"
    if "subseq (uncovered t cov q (length t)) Y" for q X Y
    using that by (rule list_emb_append2)
  show "subseq (uncovered t cov q (length t)) (take (s - q) (drop q t) @ X @ Y)"
    if "\<forall>i. s \<le> i \<and> i < e \<longrightarrow> cov i" and "q \<le> s" and "s \<le> e'" and "e' \<le> e"
      and "e \<le> length t" and "subseq (uncovered t cov e' (length t)) Y" for s e e' q X Y
  proof -
    from that have "uncovered t cov q (length t) =
        uncovered t cov q s @ uncovered t cov s e' @ uncovered t cov e' (length t)"
      using uncovered_split [of q s "length t" t cov] uncovered_split [of s e' "length t" t cov]
      by simp
    moreover from that have "uncovered t cov s e' = []"
      by (intro uncovered_empty) auto
    moreover from that have "subseq (uncovered t cov q s) (take (s - q) (drop q t))"
      by (intro uncovered_subseq) simp
    moreover have "subseq (uncovered t cov e' (length t)) (X @ Y)"
      using that(6) by (rule list_emb_append2)
    ultimately show ?thesis by (simp add: list_emb_append_mono)
  qed
  show "\<forall>r\<in>set L. \<forall>i. fst r \<le> i \<and> i < fst (snd r) \<longrightarrow> cov i" by fact
qed

text \<open>A stretch \<open>[a, b)\<close> of the text that meets no span is still there, in one piece.\<close>

lemma splice_segment:
  assumes "\<forall>r\<in>set L. fst r \<le> fst (snd r) \<and> fst (snd r) \<le> length t"
    and "sorted_wrt (\<lambda>a b. fst b \<le> fst a) L"
    and "sorted_wrt (\<lambda>a b. fst (snd a) \<le> fst b \<or> fst (snd b) \<le> fst a) L"
    and "a \<le> b" and "b \<le> length t"
    and "\<forall>r\<in>set L. fst (snd r) \<le> a \<or> b \<le> fst r"
  shows "sublist (take (b - a) (drop a t)) (foldl splice t L)"
proof -
  let ?G = "\<lambda>q Y. q \<le> a \<longrightarrow> sublist (take (b - a) (drop a t)) Y"
  let ?S = "\<lambda>s e. e \<le> a \<or> b \<le> s"
  have "?G 0 (foldl splice t L)"
  proof (rule splice_preserves [where G = ?G and S = ?S, OF _ _ _ assms(1-3)])
    show "?G q (drop q t)" for q
    proof
      assume "q \<le> a"
      then have "drop q t = take (a - q) (drop q t) @ take (b - a) (drop a t) @ drop b t"
        using assms(4) take_add [of "a - q" "b - a" "drop q t"]
          append_take_drop_id [of "b - q" "drop q t"] by simp
      then show "sublist (take (b - a) (drop a t)) (drop q t)"
        unfolding sublist_def by blast
    qed
    show "?G q (X @ Y)" if "?G q Y" for q X Y
      using that by (auto simp: sublist_def) (metis append.assoc)
    show "?G q (take (s - q) (drop q t) @ X @ Y)"
      if "e \<le> a \<or> b \<le> s" and "q \<le> s" and "s \<le> e'" and "e' \<le> e" and "e \<le> length t"
        and "?G e' Y" for s e e' q X Y
    proof
      assume qa: "q \<le> a"
      from that(1) show "sublist (take (b - a) (drop a t)) (take (s - q) (drop q t) @ X @ Y)"
      proof
        assume "e \<le> a"
        with that(4,6) have "sublist (take (b - a) (drop a t)) Y" by simp
        then show ?thesis by (auto simp: sublist_def) (metis append.assoc)
      next
        assume bs: "b \<le> s"
        have "take (s - q) (drop q t) =
            take (a - q) (drop q t) @ take (b - a) (drop a t) @ take (s - b) (drop b t)"
          using qa bs assms(4) take_add [of "a - q" "s - a" "drop q t"]
            take_add [of "b - a" "s - b" "drop a t"] by simp
        then show ?thesis unfolding sublist_def by (metis append.assoc)
      qed
    qed
    show "\<forall>r\<in>set L. fst (snd r) \<le> a \<or> b \<le> fst r" by fact
  qed
  then show ?thesis by simp
qed

lemma apply_replacement_splice:
  assumes "0 \<le> fst r" and "0 \<le> fst (snd r)"
  shows "apply_replacement t r = splice t (nat_replacement r)"
  using assms
  by (cases r)
    (auto simp: apply_replacement_def splice_def nat_replacement_def py_upto_def py_from_def
      slice_index_def)

lemma foldl_apply_splice:
  assumes "\<forall>r\<in>set L. 0 \<le> fst r \<and> 0 \<le> fst (snd r)"
  shows "foldl apply_replacement t L = foldl splice t (map nat_replacement L)"
  using assms by (induction L arbitrary: t) (simp_all add: apply_replacement_splice)

lemma processing_order_disjoint:
  assumes "non_overlapping (map span_of reps)"
  shows "sorted_wrt (\<lambda>a b. disjoint_spans (span_of a) (span_of b)) (sorted_replacements reps)"
  using assms
proof (induction reps)
  case Nil
  then show ?case by (simp add: sorted_replacements_def)
next
  case (Cons x xs)
  let ?R = "\<lambda>a b. disjoint_spans (span_of a) (span_of b)"
  let ?f = "\<lambda>x::replacement. - fst x"
  from Cons have IH: "sorted_wrt ?R (sort_key ?f xs)"
    by (simp add: sorted_replacements_def)
  from Cons.prems have d: "\<forall>y\<in>set xs. disjoint_spans (span_of x) (span_of y)"
    by (simp add: list_all_iff)
  then have d': "\<forall>y\<in>set xs. disjoint_spans (span_of y) (span_of x)"
    by (auto simp: disjoint_spans_def)
  have "sorted (map ?f (sort_key ?f xs))" by (rule sorted_sort_key)
  from sorted_wrt_insort_key [OF IH this] d d' show ?case
    by (simp add: sorted_replacements_def)
qed

lemma rewrite_from_insert:
  assumes "\<forall>r\<in>set A. fst (span_of r) \<le> s"
  shows "rewrite_from pos t (A @ (s, e, p) # B) =
           rewrite_from pos (take (nat s) t) A @ p @ rewrite_from (nat e) t B"
  using assms
proof (induction A arbitrary: pos)
  case Nil
  show ?case by (simp add: drop_take)
next
  case (Cons r A)
  obtain s' e' p' where r: "r = (s', e', p')" by (cases r)
  from Cons.prems r have "s' \<le> s" by (simp add: span_of_def)
  then have "take (nat s' - pos) (drop pos (take (nat s) t)) = take (nat s' - pos) (drop pos t)"
    by (simp add: drop_take min_def)
  with Cons show ?case by (simp add: r)
qed

lemma rewrite_from_append:
  assumes "\<forall>r\<in>set A. fst (span_of r) \<le> s \<and> snd (span_of r) \<le> s"
    and "\<forall>r\<in>set B. s \<le> fst (span_of r)"
    and "pos \<le> nat s"
  shows "rewrite_from pos t (A @ B) =
           rewrite_from pos (take (nat s) t) A @ rewrite_from (nat s) t B"
  using assms
proof (induction A arbitrary: pos)
  case Nil
  show ?case
  proof (cases B)
    case Nil
    have "drop pos t = drop pos (take (nat s) t @ drop (nat s) t)" by simp
    also have "\<dots> = drop pos (take (nat s) t) @ drop (nat s) t"
      using Nil.prems(3) by (simp add: min_def del: append_take_drop_id)
    finally show ?thesis using Nil by simp
  next
    case (Cons b B')
    obtain s' e' p' where b: "b = (s', e', p')" by (cases b)
    from Nil.prems(2) Cons b have le: "s \<le> s'" by (simp add: span_of_def)
    have "take (nat s' - pos) (drop pos t) =
        take (nat s - pos) (drop pos t) @ take (nat s' - nat s) (drop (nat s) t)"
      using Nil.prems(3) le take_add [of "nat s - pos" "nat s' - nat s" "drop pos t"] by simp
    then show ?thesis by (simp add: Cons b drop_take)
  qed
next
  case (Cons r A)
  obtain s' e' p' where r: "r = (s', e', p')" by (cases r)
  from Cons.prems(1) r have le: "s' \<le> s" "e' \<le> s" by (simp_all add: span_of_def)
  then have "take (nat s' - pos) (drop pos (take (nat s) t)) = take (nat s' - pos) (drop pos t)"
    by (simp add: drop_take min_def)
  moreover have "rewrite_from (nat e') t (A @ B) =
      rewrite_from (nat e') (take (nat s) t) A @ rewrite_from (nat s) t B"
    using Cons.prems le by (intro Cons.IH) simp_all
  ultimately show ?case by (simp add: r)
qed

lemma py_slice_valid:
  assumes "0 \<le> a" and "a \<le> b" and "b \<le> int (length t)"
  shows "py_slice t a b = take (nat b - nat a) (drop (nat a) t)"
  using assms by (auto simp: py_slice_def slice_index_def Let_def)

text \<open>A stretch of the text that meets no in-scope span is left in one piece.\<close>

lemma free_segment_untouched:
  assumes "list_all (valid_span text) (spans (in_scope_ents text nlp))"
    and "non_overlapping (spans (in_scope_ents text nlp))"
    and "0 \<le> a" and "a \<le> b" and "b \<le> int (length text)"
    and "list_all (disjoint_spans (a, b)) (spans (in_scope_ents text nlp))"
    and "anonymize_text text nlp = Inr out"
  shows "sublist (py_slice text a b) out"
proof -
  let ?F = "in_scope_ents text nlp"
  from ents_loop_initial [of "text" nlp] obtain pc reps where
    an: "anonymize_text text nlp = Inr (foldl apply_replacement text (sorted_replacements reps))"
    and rs: "list_all2 (\<lambda>ent r. fst r = start_char ent \<and> fst (snd r) = end_char ent \<and>
                  dict_get pc (ent_text text ent) = Some (snd (snd r))) ?F reps"
    by blast
  let ?L = "sorted_replacements reps"
  let ?N = "map nat_replacement ?L"
  from ents_loop_spans [OF rs] have sp: "map span_of reps = spans ?F" by simp
  have setL: "set ?L = set reps" by (simp add: sorted_replacements_def)
  have inF: "span_of r \<in> set (spans ?F)" if "r \<in> set ?L" for r
  proof -
    from that setL have "span_of r \<in> set (map span_of reps)" by simp
    with sp show ?thesis by simp
  qed
  have v: "valid_span text (span_of r)" if "r \<in> set ?L" for r
    using inF [OF that] assms(1) by (simp add: list_all_iff)
  have nonneg: "\<forall>r\<in>set ?L. 0 \<le> fst r \<and> 0 \<le> fst (snd r)"
    using v by (fastforce simp: valid_span_def span_of_def)
  have 1: "\<forall>r\<in>set ?N. fst r \<le> fst (snd r) \<and> fst (snd r) \<le> length text"
    using v by (fastforce simp: valid_span_def span_of_def nat_replacement_def)
  have "sorted_wrt (\<lambda>a b. fst (nat_replacement b) \<le> fst (nat_replacement a)) ?L"
    by (rule sorted_wrt_mono_rel [OF _ processing_order_descending])
      (simp add: nat_replacement_def)
  then have 2: "sorted_wrt (\<lambda>a b. fst b \<le> fst a) ?N"
    by (simp add: sorted_wrt_map)
  from assms(2) sp have "non_overlapping (map span_of reps)" by simp
  then have "sorted_wrt (\<lambda>a b. disjoint_spans (span_of a) (span_of b)) ?L"
    by (rule processing_order_disjoint)
  then have "sorted_wrt (\<lambda>a b. fst (snd (nat_replacement a)) \<le> fst (nat_replacement b) \<or>
                  fst (snd (nat_replacement b)) \<le> fst (nat_replacement a)) ?L"
    by (rule sorted_wrt_mono_rel [rotated])
      (auto simp: disjoint_spans_def span_of_def nat_replacement_def)
  then have 3: "sorted_wrt (\<lambda>a b. fst (snd a) \<le> fst b \<or> fst (snd b) \<le> fst a) ?N"
    by (simp add: sorted_wrt_map)
  have 4: "nat a \<le> nat b" and 5: "nat b \<le> length text" using assms(3-5) by simp_all
  have 6: "\<forall>r\<in>set ?N. fst (snd r) \<le> nat a \<or> nat b \<le> fst r"
  proof
    fix r assume "r \<in> set ?N"
    then obtain r0 where r0: "r0 \<in> set ?L" "r = nat_replacement r0" by auto
    from inF [OF r0(1)] assms(6) have "disjoint_spans (a, b) (span_of r0)"
      by (simp add: list_all_iff)
    with r0(2) show "fst (snd r) \<le> nat a \<or> nat b \<le> fst r"
      by (auto simp: disjoint_spans_def span_of_def nat_replacement_def)
  qed
  have "sublist (take (nat b - nat a) (drop (nat a) text)) (foldl splice text ?N)"
    by (rule splice_segment [OF 1 2 3 4 5 6])
  with an assms(3-5,7) show ?thesis
    by (simp add: py_slice_valid foldl_apply_splice [OF nonneg])
qed

section \<open>Results\<close>

text \<open>
  C1 (as stated, refuted). The claim asks for a failure with \<open>InvalidSpan\<close> when a span
  has \<open>start > end\<close>. The code validates nothing: on \<open>"hello"\<close> with the span
  \<open>(3, 1, PERSON)\<close> it returns \<open>"helperson_1ello"\<close>.
\<close>

theorem invalid_span_not_rejected:
  "anonymize_text (ustr ''hello'')
     (detector (ustr ''en'') [\<lparr>start_char = 3, end_char = 1, label = ustr ''PERSON''\<rparr>])
   = Inr (ustr ''helperson_1ello'')"
  by code_simp

text \<open>
  C1 (amended). The operation validates no span: for every text and every batch of
  spans, also with \<open>start > end\<close>, \<open>start < 0\<close> or \<open>end > len(text)\<close>, it returns a string
  and never fails; a batch of one in-scope span, valid or not, yields
  \<open>text[:start] + placeholder + text[end:]\<close> under Python's clamping slices.
\<close>

theorem anonymize_text_never_fails:
  "(\<exists>out. anonymize_text text nlp = Inr out) \<and>
   (\<forall>ent w. doc_ents nlp text = [ent] \<and>
       dict_get (placeholder_mapping (lang nlp)) (label ent) = Some w \<longrightarrow>
       anonymize_text text nlp =
         Inr (py_upto text (start_char ent) @ (w @ ustr ''_1'') @ py_from text (end_char ent)))"
proof (intro conjI allI impI)
  from ents_loop_initial [of "text" nlp] show "\<exists>out. anonymize_text text nlp = Inr out"
    by blast
next
  fix ent w
  assume "doc_ents nlp text = [ent] \<and>
       dict_get (placeholder_mapping (lang nlp)) (label ent) = Some w"
  then show "anonymize_text text nlp =
         Inr (py_upto text (start_char ent) @ (w @ ustr ''_1'') @ py_from text (end_char ent))"
    by (simp add: anonymize_text_single)
qed

theorem anonymize_text_never_fails_witness:
  "anonymize_text (ustr ''hello'')
     (detector (ustr ''en'') [\<lparr>start_char = -1, end_char = 9, label = ustr ''DATE''\<rparr>])
   = Inr (ustr ''helldate_1'')"
proof -
  let ?ent = "\<lparr>start_char = -1, end_char = 9, label = ustr ''DATE''\<rparr>"
  let ?nlp = "detector (ustr ''en'') [?ent]"
  have 1: "doc_ents ?nlp (ustr ''hello'') = [?ent]"
    by (simp add: detector_def)
  have 2: "dict_get (placeholder_mapping (lang ?nlp)) (label ?ent) = Some (ustr ''date'')"
    by code_simp
  have 3: "py_upto (ustr ''hello'') (start_char ?ent) @ (ustr ''date'' @ ustr ''_1'')
             @ py_from (ustr ''hello'') (end_char ?ent) = ustr ''helldate_1''"
    by code_simp
  from anonymize_text_never_fails [of "ustr ''hello''" ?nlp] 1 2
  have "anonymize_text (ustr ''hello'') ?nlp =
         Inr (py_upto (ustr ''hello'') (start_char ?ent) @ (ustr ''date'' @ ustr ''_1'')
             @ py_from (ustr ''hello'') (end_char ?ent))"
    by blast
  with 3 show ?thesis by simp
qed

text \<open>
  C2 (as stated, refuted). On \<open>"abcdefghij"\<close> with the valid but overlapping in-scope
  spans \<open>(0,9)\<close> and \<open>(1,9)\<close>, the character \<open>j\<close> lies outside both spans, and the
  result \<open>"date_1"\<close> does not contain it.
\<close>

theorem overlapping_spans_lose_outside_character:
  "list_all (valid_span (ustr ''abcdefghij'')) [(0, 9), (1, 9)] \<and>
   in_scope_ents (ustr ''abcdefghij'')
     (detector (ustr ''en'')
        [\<lparr>start_char = 0, end_char = 9, label = ustr ''DATE''\<rparr>,
         \<lparr>start_char = 1, end_char = 9, label = ustr ''DATE''\<rparr>])
     = [\<lparr>start_char = 0, end_char = 9, label = ustr ''DATE''\<rparr>,
        \<lparr>start_char = 1, end_char = 9, label = ustr ''DATE''\<rparr>] \<and>
   outside_chars (ustr ''abcdefghij'') [(0, 9), (1, 9)] = ustr ''j'' \<and>
   anonymize_text (ustr ''abcdefghij'')
     (detector (ustr ''en'')
        [\<lparr>start_char = 0, end_char = 9, label = ustr ''DATE''\<rparr>,
         \<lparr>start_char = 1, end_char = 9, label = ustr ''DATE''\<rparr>])
     = Inr (ustr ''date_1'') \<and>
   \<not> subseq (ustr ''j'') (ustr ''date_1'')"
  by code_simp

text \<open>
  C2 (amended). For every text and batch whose in-scope spans are valid and pairwise
  non-overlapping, the characters of the input text outside all in-scope spans occur
  in the result unchanged and in their original relative order: they form a
  subsequence of the result.
\<close>

theorem outside_characters_preserved:
  assumes "list_all (valid_span text) (spans (in_scope_ents text nlp))"
    and "non_overlapping (spans (in_scope_ents text nlp))"
  shows "\<exists>out. anonymize_text text nlp = Inr out \<and>
           subseq (outside_chars text (spans (in_scope_ents text nlp))) out"
proof -
  let ?F = "in_scope_ents text nlp"
  from ents_loop_initial [of "text" nlp] obtain pc reps where
    an: "anonymize_text text nlp = Inr (foldl apply_replacement text (sorted_replacements reps))"
    and rs: "list_all2 (\<lambda>ent r. fst r = start_char ent \<and> fst (snd r) = end_char ent \<and>
                  dict_get pc (ent_text text ent) = Some (snd (snd r))) ?F reps"
    by blast
  let ?L = "sorted_replacements reps"
  let ?N = "map nat_replacement ?L"
  from ents_loop_spans [OF rs] have sp: "map span_of reps = spans ?F" by simp
  have setL: "set ?L = set reps" by (simp add: sorted_replacements_def)
  have v: "valid_span text (span_of r)" if "r \<in> set ?L" for r
  proof -
    from that setL have "span_of r \<in> set (map span_of reps)" by simp
    with assms(1) sp show ?thesis by (simp add: list_all_iff)
  qed
  have nonneg: "\<forall>r\<in>set ?L. 0 \<le> fst r \<and> 0 \<le> fst (snd r)"
    using v by (fastforce simp: valid_span_def span_of_def)
  have 1: "\<forall>r\<in>set ?N. fst r \<le> fst (snd r) \<and> fst (snd r) \<le> length text"
    using v by (fastforce simp: valid_span_def span_of_def nat_replacement_def)
  have "sorted_wrt (\<lambda>a b. fst (nat_replacement b) \<le> fst (nat_replacement a)) ?L"
    by (rule sorted_wrt_mono_rel [OF _ processing_order_descending])
      (simp add: nat_replacement_def)
  then have 2: "sorted_wrt (\<lambda>a b. fst b \<le> fst a) ?N"
    by (simp add: sorted_wrt_map)
  from assms(2) sp have "non_overlapping (map span_of reps)" by simp
  then have "sorted_wrt (\<lambda>a b. disjoint_spans (span_of a) (span_of b)) ?L"
    by (rule processing_order_disjoint)
  then have "sorted_wrt (\<lambda>a b. fst (snd (nat_replacement a)) \<le> fst (nat_replacement b) \<or>
                  fst (snd (nat_replacement b)) \<le> fst (nat_replacement a)) ?L"
    by (rule sorted_wrt_mono_rel [rotated])
      (auto simp: disjoint_spans_def span_of_def nat_replacement_def)
  then have 3: "sorted_wrt (\<lambda>a b. fst (snd a) \<le> fst b \<or> fst (snd b) \<le> fst a) ?N"
    by (simp add: sorted_wrt_map)
  have 4: "\<forall>r\<in>set ?N. \<forall>i. fst r \<le> i \<and> i < fst (snd r) \<longrightarrow> covered (spans ?F) i"
  proof (intro ballI allI impI)
    fix r i assume "r \<in> set ?N" and i: "fst r \<le> i \<and> i < fst (snd r)"
    then obtain r0 where r0: "r0 \<in> set ?L" "r = nat_replacement r0" by auto
    with setL have "span_of r0 \<in> set (map span_of reps)" by simp
    with sp have "span_of r0 \<in> set (spans ?F)" by simp
    moreover from i r0 have "fst (span_of r0) \<le> int i \<and> int i < snd (span_of r0)"
      by (auto simp: nat_replacement_def span_of_def)
    ultimately show "covered (spans ?F) i"
      by (auto simp: covered_def list_ex_iff)
  qed
  have "subseq (uncovered text (covered (spans ?F)) 0 (length text)) (foldl splice text ?N)"
    by (rule splice_outside [OF 1 2 3 4])
  then have "subseq (outside_chars text (spans ?F)) (foldl apply_replacement text ?L)"
    by (simp add: outside_chars_def foldl_apply_splice [OF nonneg])
  with an show ?thesis by blast
qed

theorem outside_characters_preserved_witness:
  "outside_chars (ustr ''Alice met Bob. Alice left.'') [(0, 5), (10, 13), (15, 20)]
     = ustr '' met .  left.'' \<and>
   (\<exists>out.
     anonymize_text (ustr ''Alice met Bob. Alice left.'')
       (detector (ustr ''en'')
          [\<lparr>start_char = 0, end_char = 5, label = ustr ''PERSON''\<rparr>,
           \<lparr>start_char = 10, end_char = 13, label = ustr ''PERSON''\<rparr>,
           \<lparr>start_char = 15, end_char = 20, label = ustr ''PERSON''\<rparr>]) = Inr out \<and>
     subseq (ustr '' met .  left.'') out)"
proof -
  let ?text = "ustr ''Alice met Bob. Alice left.''"
  let ?ents = "[\<lparr>start_char = 0, end_char = 5, label = ustr ''PERSON''\<rparr>,
         \<lparr>start_char = 10, end_char = 13, label = ustr ''PERSON''\<rparr>,
         \<lparr>start_char = 15, end_char = 20, label = ustr ''PERSON''\<rparr>]"
  let ?nlp = "detector (ustr ''en'') ?ents"
  have S: "spans (in_scope_ents ?text ?nlp) = [(0, 5), (10, 13), (15, 20)]" by code_simp
  have O: "outside_chars ?text [(0, 5), (10, 13), (15, 20)] = ustr '' met .  left.''"
    by code_simp
  have 1: "list_all (valid_span ?text) (spans (in_scope_ents ?text ?nlp))" by code_simp
  have 2: "non_overlapping (spans (in_scope_ents ?text ?nlp))" by code_simp
  from outside_characters_preserved [OF 1 2] obtain out where
    "anonymize_text ?text ?nlp = Inr out"
    and "subseq (outside_chars ?text (spans (in_scope_ents ?text ?nlp))) out"
    by blast
  then have "anonymize_text ?text ?nlp = Inr out \<and> subseq (ustr '' met .  left.'') out"
    by (simp only: S O)
  with O show ?thesis by blast
qed

text \<open>
  C3. Within one document, any two in-scope entity spans (overlapping or not) whose
  matched substrings \<open>text[start:end]\<close> are equal receive the same placeholder: the
  first loop produces one replacement per in-scope entity, with the entity's offsets,
  and two replacements of entities with equal text carry the same placeholder string.
\<close>

theorem same_text_same_placeholder:
  "\<exists>pc reps.
     ents_loop text (placeholder_mapping (lang nlp)) ([], []) (doc_ents nlp text) = Inr (pc, reps) \<and>
     anonymize_text text nlp = Inr (foldl apply_replacement text (sorted_replacements reps)) \<and>
     length reps = length (in_scope_ents text nlp) \<and>
     (\<forall>i<length reps. \<forall>j<length reps.
        fst (reps ! i) = start_char (in_scope_ents text nlp ! i) \<and>
        fst (snd (reps ! i)) = end_char (in_scope_ents text nlp ! i) \<and>
        (ent_text text (in_scope_ents text nlp ! i) = ent_text text (in_scope_ents text nlp ! j) \<longrightarrow>
           snd (snd (reps ! i)) = snd (snd (reps ! j))))"
proof -
  let ?F = "in_scope_ents text nlp"
  from ents_loop_initial [of "text" nlp] obtain pc reps where
    run: "ents_loop text (placeholder_mapping (lang nlp)) ([], []) (doc_ents nlp text) = Inr (pc, reps)"
    and an: "anonymize_text text nlp = Inr (foldl apply_replacement text (sorted_replacements reps))"
    and rs: "list_all2 (\<lambda>ent r. fst r = start_char ent \<and> fst (snd r) = end_char ent \<and>
                  dict_get pc (ent_text text ent) = Some (snd (snd r))) ?F reps"
    by blast
  from rs have len: "length reps = length ?F"
    by (simp add: list_all2_lengthD)
  have nth: "fst (reps ! i) = start_char (?F ! i) \<and> fst (snd (reps ! i)) = end_char (?F ! i) \<and>
      dict_get pc (ent_text text (?F ! i)) = Some (snd (snd (reps ! i)))" if "i < length reps" for i
    using rs that len by (simp add: list_all2_conv_all_nth)
  have "\<forall>i<length reps. \<forall>j<length reps.
        fst (reps ! i) = start_char (?F ! i) \<and>
        fst (snd (reps ! i)) = end_char (?F ! i) \<and>
        (ent_text text (?F ! i) = ent_text text (?F ! j) \<longrightarrow>
           snd (snd (reps ! i)) = snd (snd (reps ! j)))"
  proof (intro allI impI conjI)
    fix i j assume i: "i < length reps" and j: "j < length reps"
    show "fst (reps ! i) = start_char (?F ! i)" using nth [OF i] by simp
    show "fst (snd (reps ! i)) = end_char (?F ! i)" using nth [OF i] by simp
    assume "ent_text text (?F ! i) = ent_text text (?F ! j)"
    with nth [OF i] nth [OF j] show "snd (snd (reps ! i)) = snd (snd (reps ! j))" by simp
  qed
  with run an len show ?thesis by blast
qed

theorem same_text_same_placeholder_witness:
  "\<exists>pc reps.
     ents_loop (ustr ''Alice met Bob. Alice left.'') (placeholder_mapping (ustr ''en'')) ([], [])
        [\<lparr>start_char = 0, end_char = 5, label = ustr ''PERSON''\<rparr>,
         \<lparr>start_char = 10, end_char = 13, label = ustr ''PERSON''\<rparr>,
         \<lparr>start_char = 15, end_char = 20, label = ustr ''PERSON''\<rparr>] = Inr (pc, reps) \<and>
     length reps = 3 \<and> snd (snd (reps ! 0)) = snd (snd (reps ! 2))"
proof -
  let ?text = "ustr ''Alice met Bob. Alice left.''"
  let ?ents = "[\<lparr>start_char = 0, end_char = 5, label = ustr ''PERSON''\<rparr>,
         \<lparr>start_char = 10, end_char = 13, label = ustr ''PERSON''\<rparr>,
         \<lparr>start_char = 15, end_char = 20, label = ustr ''PERSON''\<rparr>]"
  let ?nlp = "detector (ustr ''en'') ?ents"
  have F: "in_scope_ents ?text ?nlp = ?ents" by code_simp
  have T: "ent_text ?text (?ents ! 0) = ent_text ?text (?ents ! 2)" by code_simp
  have L: "lang ?nlp = ustr ''en''" "doc_ents ?nlp ?text = ?ents" by (simp_all add: detector_def)
  from same_text_same_placeholder [of ?text ?nlp] obtain pc reps where
    run: "ents_loop ?text (placeholder_mapping (lang ?nlp)) ([], []) (doc_ents ?nlp ?text) = Inr (pc, reps)"
    and len: "length reps = length (in_scope_ents ?text ?nlp)"
    and eq: "\<forall>i<length reps. \<forall>j<length reps.
        fst (reps ! i) = start_char (in_scope_ents ?text ?nlp ! i) \<and>
        fst (snd (reps ! i)) = end_char (in_scope_ents ?text ?nlp ! i) \<and>
        (ent_text ?text (in_scope_ents ?text ?nlp ! i) = ent_text ?text (in_scope_ents ?text ?nlp ! j) \<longrightarrow>
           snd (snd (reps ! i)) = snd (snd (reps ! j)))"
    by blast
  from len F have len3: "length reps = 3" by simp
  with eq have "ent_text ?text (in_scope_ents ?text ?nlp ! 0) = ent_text ?text (in_scope_ents ?text ?nlp ! 2) \<longrightarrow>
           snd (snd (reps ! 0)) = snd (snd (reps ! 2))"
    by simp
  with F T have "snd (snd (reps ! 0)) = snd (snd (reps ! 2))" by simp
  with run len3 L show ?thesis by auto
qed

text \<open>
  C4 (as stated, refuted). The ordinals follow the order of the entity sequence, not
  the position in the text: on \<open>"Alice met Bob"\<close> with the spans \<open>(10,13)\<close>, \<open>(0,5)\<close> in
  this order, \<open>Bob\<close> is numbered 1 and the leftmost substring \<open>Alice\<close> is numbered 2; the
  result is \<open>"person_2 met person_1"\<close>.
\<close>

theorem unordered_batch_numbers_rightmost_first:
  "ents_loop (ustr ''Alice met Bob'') (placeholder_mapping (ustr ''en'')) ([], [])
     [\<lparr>start_char = 10, end_char = 13, label = ustr ''PERSON''\<rparr>,
      \<lparr>start_char = 0, end_char = 5, label = ustr ''PERSON''\<rparr>]
     = Inr ([(ustr ''Bob'', ustr ''person_1''), (ustr ''Alice'', ustr ''person_2'')],
            [(10, 13, ustr ''person_1''), (0, 5, ustr ''person_2'')]) \<and>
   anonymize_text (ustr ''Alice met Bob'')
     (detector (ustr ''en'')
        [\<lparr>start_char = 10, end_char = 13, label = ustr ''PERSON''\<rparr>,
         \<lparr>start_char = 0, end_char = 5, label = ustr ''PERSON''\<rparr>])
     = Inr (ustr ''person_2 met person_1'')"
  by code_simp

text \<open>
  C4 (amended). The keys of the final placeholder counter are the distinct matched
  substrings of the in-scope entities in the order of their first occurrence in the
  entity sequence \<open>doc.ents\<close>; the \<open>k\<close>-th of them (counting from 1) has the placeholder
  \<open>word_k\<close>, for a word of the placeholder mapping, so the ordinal counts distinct
  substrings and not occurrences; every replacement carries the placeholder of its
  entity's text; entities with different texts receive different placeholders; and
  every occurrence of a later-numbered substring comes after an occurrence of each
  earlier-numbered one in \<open>doc.ents\<close>, hence to its right in the text when the entities
  are listed by ascending start.
\<close>

theorem distinct_texts_numbered_in_first_seen_order:
  "\<exists>pc reps.
     ents_loop text (placeholder_mapping (lang nlp)) ([], []) (doc_ents nlp text) = Inr (pc, reps) \<and>
     anonymize_text text nlp = Inr (foldl apply_replacement text (sorted_replacements reps)) \<and>
     map fst pc = first_seen (map (ent_text text) (in_scope_ents text nlp)) \<and>
     (\<forall>k<length pc. \<exists>w. w \<in> snd ` set (placeholder_mapping (lang nlp)) \<and>
        snd (pc ! k) = w @ ustr ''_'' @ str_nat (k + 1)) \<and>
     length reps = length (in_scope_ents text nlp) \<and>
     (\<forall>i<length reps.
        dict_get pc (ent_text text (in_scope_ents text nlp ! i)) = Some (snd (snd (reps ! i)))) \<and>
     (\<forall>i<length reps. \<forall>j<length reps.
        ent_text text (in_scope_ents text nlp ! i) \<noteq> ent_text text (in_scope_ents text nlp ! j) \<longrightarrow>
        snd (snd (reps ! i)) \<noteq> snd (snd (reps ! j))) \<and>
     (\<forall>k k' i'. k < k' \<and> k' < length pc \<and> i' < length reps \<and>
        ent_text text (in_scope_ents text nlp ! i') = fst (pc ! k') \<longrightarrow>
        (\<exists>i<i'. ent_text text (in_scope_ents text nlp ! i) = fst (pc ! k) \<and>
           (sorted (map start_char (in_scope_ents text nlp)) \<longrightarrow>
              start_char (in_scope_ents text nlp ! i) \<le> start_char (in_scope_ents text nlp ! i'))))"
proof -
  let ?F = "in_scope_ents text nlp"
  let ?pm = "placeholder_mapping (lang nlp)"
  from ents_loop_initial [of "text" nlp] obtain pc reps where
    run: "ents_loop text ?pm ([], []) (doc_ents nlp text) = Inr (pc, reps)"
    and an: "anonymize_text text nlp = Inr (foldl apply_replacement text (sorted_replacements reps))"
    and ks: "map fst pc = first_seen (map (ent_text text) ?F)"
    and rs: "list_all2 (\<lambda>ent r. fst r = start_char ent \<and> fst (snd r) = end_char ent \<and>
                  dict_get pc (ent_text text ent) = Some (snd (snd r))) ?F reps"
    and vs: "\<forall>k<length pc. \<exists>e0 w.
        find (\<lambda>e. ent_text text e = fst (pc ! k)) ?F = Some e0 \<and>
        dict_get ?pm (label e0) = Some w \<and>
        snd (pc ! k) = w @ ustr ''_'' @ str_nat (k + 1)"
    by blast
  from rs have len: "length reps = length ?F"
    by (simp add: list_all2_lengthD)
  have get: "dict_get pc (ent_text text (?F ! i)) = Some (snd (snd (reps ! i)))"
    if "i < length reps" for i
    using rs that len by (simp add: list_all2_conv_all_nth)
  have form: "\<exists>w. w \<in> snd ` set ?pm \<and> snd (pc ! k) = w @ ustr ''_'' @ str_nat (k + 1)"
    if "k < length pc" for k
  proof -
    from vs [rule_format, OF that] obtain e0 :: entity and w where w: "dict_get ?pm (label e0) = Some w"
      and v: "snd (pc ! k) = w @ ustr ''_'' @ str_nat (k + 1)"
      by blast
    from w have "(label e0, w) \<in> set ?pm" by (simp add: dict_get_def map_of_SomeD)
    then have "w \<in> snd ` set ?pm" by force
    with v show ?thesis by blast
  qed
  have diff: "snd (snd (reps ! i)) \<noteq> snd (snd (reps ! j))"
    if i: "i < length reps" and j: "j < length reps"
      and ne: "ent_text text (?F ! i) \<noteq> ent_text text (?F ! j)" for i j
  proof
    assume eq: "snd (snd (reps ! i)) = snd (snd (reps ! j))"
    from dict_get_nth [OF get [OF i]] obtain a where
      a: "a < length pc" "pc ! a = (ent_text text (?F ! i), snd (snd (reps ! i)))" by blast
    from dict_get_nth [OF get [OF j]] obtain b where
      b: "b < length pc" "pc ! b = (ent_text text (?F ! j), snd (snd (reps ! j)))" by blast
    from form [OF a(1)] a(2) obtain wa where
      wa: "snd (snd (reps ! i)) = wa @ ustr ''_'' @ str_nat (a + 1)" by auto
    from form [OF b(1)] b(2) obtain wb where
      wb: "snd (snd (reps ! j)) = wb @ ustr ''_'' @ str_nat (b + 1)" by auto
    from eq wa wb have "a + 1 = b + 1" using placeholder_inj by metis
    with a(2) b(2) ne show False by simp
  qed
  have order: "\<exists>i<i'. ent_text text (?F ! i) = fst (pc ! k) \<and>
           (sorted (map start_char ?F) \<longrightarrow> start_char (?F ! i) \<le> start_char (?F ! i'))"
    if "k < k' \<and> k' < length pc \<and> i' < length reps \<and> ent_text text (?F ! i') = fst (pc ! k')"
    for k k' i'
  proof -
    let ?T = "map (ent_text text) ?F"
    from that have k: "k < k'" and k': "k' < length pc" and i': "i' < length ?F"
      and t: "ent_text text (?F ! i') = fst (pc ! k')" by (simp_all add: len)
    from ks have lk: "length (first_seen ?T) = length pc" by (metis length_map)
    from k k' have nk: "first_seen ?T ! k = fst (pc ! k)" "first_seen ?T ! k' = fst (pc ! k')"
      by (simp_all add: ks [symmetric])
    from k' lk have 1: "k' < length (first_seen ?T)" by simp
    from i' have 2: "i' < length ?T" by simp
    from t nk i' have 3: "?T ! i' = first_seen ?T ! k'" by simp
    from first_seen_order [OF k 1 2 3] obtain i where i: "i < i'" "?T ! i = first_seen ?T ! k"
      by blast
    with i' nk have "ent_text text (?F ! i) = fst (pc ! k)" by simp
    moreover have "start_char (?F ! i) \<le> start_char (?F ! i')" if "sorted (map start_char ?F)"
      using sorted_nth_mono [OF that, of i i'] i(1) i' by simp
    ultimately show ?thesis using i(1) by blast
  qed
  from run an ks form len get diff order show ?thesis by blast
qed

theorem distinct_texts_numbered_in_first_seen_order_witness:
  "\<exists>pc reps.
     ents_loop (ustr ''Alice met Bob. Alice left.'') (placeholder_mapping (ustr ''en'')) ([], [])
        [\<lparr>start_char = 0, end_char = 5, label = ustr ''PERSON''\<rparr>,
         \<lparr>start_char = 10, end_char = 13, label = ustr ''PERSON''\<rparr>,
         \<lparr>start_char = 15, end_char = 20, label = ustr ''PERSON''\<rparr>] = Inr (pc, reps) \<and>
     map fst pc = [ustr ''Alice'', ustr ''Bob''] \<and>
     snd (snd (reps ! 0)) \<noteq> snd (snd (reps ! 1))"
proof -
  let ?text = "ustr ''Alice met Bob. Alice left.''"
  let ?ents = "[\<lparr>start_char = 0, end_char = 5, label = ustr ''PERSON''\<rparr>,
         \<lparr>start_char = 10, end_char = 13, label = ustr ''PERSON''\<rparr>,
         \<lparr>start_char = 15, end_char = 20, label = ustr ''PERSON''\<rparr>]"
  let ?nlp = "detector (ustr ''en'') ?ents"
  have F: "in_scope_ents ?text ?nlp = ?ents" by code_simp
  have K: "first_seen (map (ent_text ?text) ?ents) = [ustr ''Alice'', ustr ''Bob'']" by code_simp
  have T: "ent_text ?text (?ents ! 0) \<noteq> ent_text ?text (?ents ! 1)" by code_simp
  have L: "lang ?nlp = ustr ''en''" "doc_ents ?nlp ?text = ?ents" by (simp_all add: detector_def)
  from distinct_texts_numbered_in_first_seen_order [of ?text ?nlp] obtain pc reps where
    run: "ents_loop ?text (placeholder_mapping (lang ?nlp)) ([], []) (doc_ents ?nlp ?text) = Inr (pc, reps)"
    and ks: "map fst pc = first_seen (map (ent_text ?text) (in_scope_ents ?text ?nlp))"
    and len: "length reps = length (in_scope_ents ?text ?nlp)"
    and ne: "\<forall>i<length reps. \<forall>j<length reps.
        ent_text ?text (in_scope_ents ?text ?nlp ! i) \<noteq> ent_text ?text (in_scope_ents ?text ?nlp ! j) \<longrightarrow>
        snd (snd (reps ! i)) \<noteq> snd (snd (reps ! j))"
    by blast
  from len F have len3: "length reps = 3" by simp
  with ne have "ent_text ?text (in_scope_ents ?text ?nlp ! 0) \<noteq> ent_text ?text (in_scope_ents ?text ?nlp ! 1) \<longrightarrow>
        snd (snd (reps ! 0)) \<noteq> snd (snd (reps ! 1))"
    by simp
  then have "ent_text ?text (?ents ! 0) \<noteq> ent_text ?text (?ents ! 1) \<longrightarrow>
        snd (snd (reps ! 0)) \<noteq> snd (snd (reps ! 1))"
    by (simp only: F)
  with T have "snd (snd (reps ! 0)) \<noteq> snd (snd (reps ! 1))" by blast
  moreover from ks have "map fst pc = [ustr ''Alice'', ustr ''Bob'']" by (simp only: F K)
  ultimately show ?thesis using run L by auto
qed

text \<open>
  C5. On \<open>"Alice met Bob. Alice left."\<close> with the spans \<open>(0,5,PERSON)\<close>, \<open>(10,13,PERSON)\<close>,
  \<open>(15,20,PERSON)\<close> and the English placeholder words, the result is exactly
  \<open>"person_1 met person_2. person_1 left."\<close>.
\<close>

theorem anonymize_text_alice_bob:
  "anonymize_text (ustr ''Alice met Bob. Alice left.'')
     (detector (ustr ''en'')
        [\<lparr>start_char = 0, end_char = 5, label = ustr ''PERSON''\<rparr>,
         \<lparr>start_char = 10, end_char = 13, label = ustr ''PERSON''\<rparr>,
         \<lparr>start_char = 15, end_char = 20, label = ustr ''PERSON''\<rparr>])
   = Inr (ustr ''person_1 met person_2. person_1 left.'')"
  by code_simp

text \<open>
  C6 (as stated, refuted). On \<open>"abcd"\<close> with the valid, disjoint spans \<open>(1,1)\<close> and
  \<open>(1,3)\<close>, in this order, the zero-length span is applied first (the sort is stable),
  its insertion shifts the text of the second span, and the result
  \<open>"aperson_2rson_1bcd"\<close> is not the reference rewrite \<open>"aperson_1person_2d"\<close>.
\<close>

theorem empty_span_before_same_start_breaks_rewrite:
  "list_all (valid_span (ustr ''abcd'')) [(1, 1), (1, 3)] \<and>
   non_overlapping [(1, 1), (1, 3)] \<and>
   ents_loop (ustr ''abcd'') (placeholder_mapping (ustr ''en'')) ([], [])
     [\<lparr>start_char = 1, end_char = 1, label = ustr ''PERSON''\<rparr>,
      \<lparr>start_char = 1, end_char = 3, label = ustr ''PERSON''\<rparr>]
     = Inr ([([], ustr ''person_1''), (ustr ''bc'', ustr ''person_2'')],
            [(1, 1, ustr ''person_1''), (1, 3, ustr ''person_2'')]) \<and>
   anonymize_text (ustr ''abcd'')
     (detector (ustr ''en'')
        [\<lparr>start_char = 1, end_char = 1, label = ustr ''PERSON''\<rparr>,
         \<lparr>start_char = 1, end_char = 3, label = ustr ''PERSON''\<rparr>])
     = Inr (ustr ''aperson_2rson_1bcd'') \<and>
   reference_rewrite (ustr ''abcd'') [(1, 1, ustr ''person_1''), (1, 3, ustr ''person_2'')]
     = ustr ''aperson_1person_2d''"
  by code_simp

text \<open>
  C6 (amended). The substitutions are applied in descending order of start offset.
  For every batch whose in-scope spans are valid and pairwise non-overlapping, and in
  which no zero-length span is listed before a non-empty span starting at the same
  offset: while the replacements are applied, the text up to the end of every span
  not yet processed is still the original text, and the result is the reference
  rewrite, which concatenates the untouched segments and the placeholders from left
  to right.
\<close>

theorem right_to_left_equals_reference_rewrite:
  assumes "list_all (valid_span text) (spans (in_scope_ents text nlp))"
    and "non_overlapping (spans (in_scope_ents text nlp))"
    and "no_empty_before (spans (in_scope_ents text nlp))"
  shows "\<exists>pc reps.
     ents_loop text (placeholder_mapping (lang nlp)) ([], []) (doc_ents nlp text) = Inr (pc, reps) \<and>
     map span_of reps = spans (in_scope_ents text nlp) \<and>
     sorted_wrt (\<lambda>a b. fst b \<le> fst a) (sorted_replacements reps) \<and>
     (\<forall>k j. k \<le> j \<and> j < length reps \<longrightarrow>
        take (nat (snd (span_of (sorted_replacements reps ! j))))
          (foldl apply_replacement text (take k (sorted_replacements reps)))
        = take (nat (snd (span_of (sorted_replacements reps ! j)))) text) \<and>
     anonymize_text text nlp = Inr (reference_rewrite text reps)"
proof -
  let ?F = "in_scope_ents text nlp"
  from ents_loop_initial [of "text" nlp] obtain pc reps where
    run: "ents_loop text (placeholder_mapping (lang nlp)) ([], []) (doc_ents nlp text) = Inr (pc, reps)"
    and an: "anonymize_text text nlp = Inr (foldl apply_replacement text (sorted_replacements reps))"
    and rs: "list_all2 (\<lambda>ent r. fst r = start_char ent \<and> fst (snd r) = end_char ent \<and>
                  dict_get pc (ent_text text ent) = Some (snd (snd r))) ?F reps"
    by blast
  let ?L = "sorted_replacements reps"
  from ents_loop_spans [OF rs] have sp: "map span_of reps = spans ?F"
    and inj: "inj_on span_of (set reps)" by simp_all
  from assms sp have v: "list_all (valid_span text) (map span_of reps)"
    and no: "non_overlapping (map span_of reps)"
    and ne: "no_empty_before (map span_of reps)" by simp_all
  have sep: "sorted_wrt (\<lambda>a b. snd (span_of b) \<le> fst (span_of a)) ?L"
    by (rule processing_order_separated [OF v no ne])
  have vL: "\<forall>r\<in>set ?L. valid_span text (span_of r)"
    using v by (simp add: sorted_replacements_def list_all_iff)
  have desc: "sorted_wrt (\<lambda>a b. fst b \<le> fst a) ?L"
    by (rule processing_order_descending)
  have keep: "\<forall>k j. k \<le> j \<and> j < length reps \<longrightarrow>
        take (nat (snd (span_of (?L ! j)))) (foldl apply_replacement text (take k ?L))
        = take (nat (snd (span_of (?L ! j)))) text"
  proof (intro allI impI)
    fix k j assume "k \<le> j \<and> j < length reps"
    then have "k \<le> j" and "j < length ?L" by (simp_all add: sorted_replacements_def)
    then show "take (nat (snd (span_of (?L ! j)))) (foldl apply_replacement text (take k ?L))
        = take (nat (snd (span_of (?L ! j)))) text"
      by (rule not_yet_processed_untouched [OF sep vL])
  qed
  have "foldl apply_replacement text ?L = rewrite_from 0 text (rev ?L)"
    by (rule foldl_apply_rewrite [OF sep vL])
  also have "rev ?L = left_to_right reps"
    by (rule rev_processing_order [OF sep v inj, symmetric])
  finally have "anonymize_text text nlp = Inr (reference_rewrite text reps)"
    using an by (simp add: reference_rewrite_def)
  with run sp desc keep show ?thesis by blast
qed

theorem right_to_left_equals_reference_rewrite_witness:
  "\<exists>pc reps.
     ents_loop (ustr ''Alice met Bob. Alice left.'') (placeholder_mapping (ustr ''en'')) ([], [])
        [\<lparr>start_char = 0, end_char = 5, label = ustr ''PERSON''\<rparr>,
         \<lparr>start_char = 10, end_char = 13, label = ustr ''PERSON''\<rparr>,
         \<lparr>start_char = 15, end_char = 20, label = ustr ''PERSON''\<rparr>] = Inr (pc, reps) \<and>
     anonymize_text (ustr ''Alice met Bob. Alice left.'')
       (detector (ustr ''en'')
          [\<lparr>start_char = 0, end_char = 5, label = ustr ''PERSON''\<rparr>,
           \<lparr>start_char = 10, end_char = 13, label = ustr ''PERSON''\<rparr>,
           \<lparr>start_char = 15, end_char = 20, label = ustr ''PERSON''\<rparr>])
       = Inr (reference_rewrite (ustr ''Alice met Bob. Alice left.'') reps)"
proof -
  let ?text = "ustr ''Alice met Bob. Alice left.''"
  let ?ents = "[\<lparr>start_char = 0, end_char = 5, label = ustr ''PERSON''\<rparr>,
         \<lparr>start_char = 10, end_char = 13, label = ustr ''PERSON''\<rparr>,
         \<lparr>start_char = 15, end_char = 20, label = ustr ''PERSON''\<rparr>]"
  let ?nlp = "detector (ustr ''en'') ?ents"
  have 1: "list_all (valid_span ?text) (spans (in_scope_ents ?text ?nlp))" by code_simp
  have 2: "non_overlapping (spans (in_scope_ents ?text ?nlp))" by code_simp
  have 3: "no_empty_before (spans (in_scope_ents ?text ?nlp))" by code_simp
  have L: "lang ?nlp = ustr ''en''" "doc_ents ?nlp ?text = ?ents" by (simp_all add: detector_def)
  from right_to_left_equals_reference_rewrite [OF 1 2 3] obtain pc reps where
    "ents_loop ?text (placeholder_mapping (lang ?nlp)) ([], []) (doc_ents ?nlp ?text) = Inr (pc, reps)"
    and "anonymize_text ?text ?nlp = Inr (reference_rewrite ?text reps)"
    by blast
  with L show ?thesis by auto
qed

text \<open>
  C7. For every input text, when the detector finds no entity the result is exactly
  the input text.
\<close>

theorem anonymize_text_no_entities:
  "doc_ents nlp text = [] \<Longrightarrow> anonymize_text text nlp = Inr text"
  by (simp add: anonymize_text_def sorted_replacements_def)

theorem anonymize_text_no_entities_witness:
  "anonymize_text (ustr ''AB'') (detector (ustr ''en'') []) = Inr (ustr ''AB'')"
  using anonymize_text_no_entities [of "detector (ustr ''en'') []" "ustr ''AB''"]
  by (simp add: detector_def)

text \<open>
  C8 (as stated, refuted). On \<open>"AB"\<close> with the valid, disjoint spans \<open>(1,1)\<close> and \<open>(1,2)\<close>,
  in this order, the zero-length span receives \<open>person_1\<close> and is applied first; the
  later edit of \<open>(1,2)\<close> cuts into the inserted placeholder, and the result
  \<open>"Aperson_2erson_1B"\<close> does not contain \<open>person_1\<close>.
\<close>

theorem zero_length_placeholder_overwritten:
  "list_all (valid_span (ustr ''AB'')) [(1, 1), (1, 2)] \<and>
   non_overlapping [(1, 1), (1, 2)] \<and>
   ents_loop (ustr ''AB'') (placeholder_mapping (ustr ''en'')) ([], [])
     [\<lparr>start_char = 1, end_char = 1, label = ustr ''PERSON''\<rparr>,
      \<lparr>start_char = 1, end_char = 2, label = ustr ''PERSON''\<rparr>]
     = Inr ([([], ustr ''person_1''), (ustr ''B'', ustr ''person_2'')],
            [(1, 1, ustr ''person_1''), (1, 2, ustr ''person_2'')]) \<and>
   anonymize_text (ustr ''AB'')
     (detector (ustr ''en'')
        [\<lparr>start_char = 1, end_char = 1, label = ustr ''PERSON''\<rparr>,
         \<lparr>start_char = 1, end_char = 2, label = ustr ''PERSON''\<rparr>])
     = Inr (ustr ''Aperson_2erson_1B'') \<and>
   \<not> sublist (ustr ''person_1'') (ustr ''Aperson_2erson_1B'')"
  by code_simp

text \<open>
  C8 (amended). No batch makes the operation fail, and a zero-length replacement
  \<open>(s, s, p)\<close> applied to a text \<open>t\<close> with \<open>0 \<le> s \<le> len(t)\<close> inserts \<open>p\<close> at \<open>s\<close> and removes
  nothing. In a batch whose in-scope spans are valid and pairwise non-overlapping,
  and in which no zero-length span is listed before a non-empty span starting at the
  same offset, every zero-length in-scope span acts as a pure insertion: with \<open>A\<close> the
  replacements to its left and \<open>B\<close> those to its right, the result is the rewritten
  text before the point, the placeholder, and the rewritten text from the point on,
  and applying the other replacements alone gives the same two pieces without the
  placeholder. A batch of one in-scope span \<open>(s, s)\<close> yields the text with the
  placeholder inserted at \<open>s\<close>; in particular \<open>"AB"\<close> with \<open>(1,1,PERSON)\<close> yields
  \<open>"Aperson_1B"\<close>.
\<close>

theorem zero_length_span_inserts:
  "(\<exists>out. anonymize_text text nlp = Inr out) \<and>
   (\<forall>t s p. 0 \<le> s \<and> s \<le> int (length t) \<longrightarrow>
      apply_replacement t (s, s, p) = take (nat s) t @ p @ drop (nat s) t) \<and>
   (\<forall>ent w. doc_ents nlp text = [ent] \<and>
      dict_get (placeholder_mapping (lang nlp)) (label ent) = Some w \<and>
      start_char ent = end_char ent \<and> 0 \<le> start_char ent \<and>
      start_char ent \<le> int (length text) \<longrightarrow>
      anonymize_text text nlp =
        Inr (take (nat (start_char ent)) text @ (w @ ustr ''_1'') @ drop (nat (start_char ent)) text)) \<and>
   (list_all (valid_span text) (spans (in_scope_ents text nlp)) \<and>
    non_overlapping (spans (in_scope_ents text nlp)) \<and>
    no_empty_before (spans (in_scope_ents text nlp)) \<longrightarrow>
    (\<exists>pc reps.
       ents_loop text (placeholder_mapping (lang nlp)) ([], []) (doc_ents nlp text) = Inr (pc, reps) \<and>
       map span_of reps = spans (in_scope_ents text nlp) \<and>
       (\<forall>i<length reps. fst (reps ! i) = fst (snd (reps ! i)) \<longrightarrow>
          (\<exists>A B. left_to_right reps = A @ reps ! i # B \<and>
             anonymize_text text nlp =
               Inr (rewrite_from 0 (take (nat (fst (reps ! i))) text) A @ snd (snd (reps ! i)) @
                    rewrite_from (nat (fst (reps ! i))) text B) \<and>
             foldl apply_replacement text (rev (A @ B)) =
               rewrite_from 0 (take (nat (fst (reps ! i))) text) A @
               rewrite_from (nat (fst (reps ! i))) text B))))"
proof (intro conjI allI impI)
  from ents_loop_initial [of "text" nlp] show "\<exists>out. anonymize_text text nlp = Inr out"
    by blast
next
  fix t :: ustring and s :: int and p :: ustring
  assume "0 \<le> s \<and> s \<le> int (length t)"
  then have "valid_span t (s, s)" by (simp add: valid_span_def)
  then show "apply_replacement t (s, s, p) = take (nat s) t @ p @ drop (nat s) t"
    by (rule apply_replacement_valid)
next
  fix ent w
  assume a: "doc_ents nlp text = [ent] \<and>
      dict_get (placeholder_mapping (lang nlp)) (label ent) = Some w \<and>
      start_char ent = end_char ent \<and> 0 \<le> start_char ent \<and>
      start_char ent \<le> int (length text)"
  then have "py_upto text (start_char ent) = take (nat (start_char ent)) text"
    and "py_from text (end_char ent) = drop (nat (start_char ent)) text"
    by (simp_all add: py_upto_def py_from_def slice_index_def)
  moreover from a have "anonymize_text text nlp =
      Inr (py_upto text (start_char ent) @ (w @ ustr ''_1'') @ py_from text (end_char ent))"
    by (intro anonymize_text_single) simp_all
  ultimately show "anonymize_text text nlp =
        Inr (take (nat (start_char ent)) text @ (w @ ustr ''_1'') @ drop (nat (start_char ent)) text)"
    by simp
next
  let ?F = "in_scope_ents text nlp"
  assume hyp: "list_all (valid_span text) (spans ?F) \<and> non_overlapping (spans ?F) \<and>
    no_empty_before (spans ?F)"
  from ents_loop_initial [of "text" nlp] obtain pc reps where
    run: "ents_loop text (placeholder_mapping (lang nlp)) ([], []) (doc_ents nlp text) = Inr (pc, reps)"
    and an: "anonymize_text text nlp = Inr (foldl apply_replacement text (sorted_replacements reps))"
    and rs: "list_all2 (\<lambda>ent r. fst r = start_char ent \<and> fst (snd r) = end_char ent \<and>
                  dict_get pc (ent_text text ent) = Some (snd (snd r))) ?F reps"
    by blast
  let ?L = "sorted_replacements reps"
  let ?R = "\<lambda>a b. snd (span_of b) \<le> fst (span_of a)"
  from ents_loop_spans [OF rs] have sp: "map span_of reps = spans ?F"
    and inj: "inj_on span_of (set reps)" by simp_all
  from hyp sp have v: "list_all (valid_span text) (map span_of reps)"
    and no: "non_overlapping (map span_of reps)"
    and ne: "no_empty_before (map span_of reps)" by simp_all
  have sep: "sorted_wrt ?R ?L"
    by (rule processing_order_separated [OF v no ne])
  have vL: "\<forall>r\<in>set ?L. valid_span text (span_of r)"
    using v by (simp add: sorted_replacements_def list_all_iff)
  have lr: "left_to_right reps = rev ?L"
    by (rule rev_processing_order [OF sep v inj])
  have out: "anonymize_text text nlp = Inr (rewrite_from 0 text (left_to_right reps))"
    using an foldl_apply_rewrite [OF sep vL] by (simp add: lr)
  have ins: "\<exists>A B. left_to_right reps = A @ reps ! i # B \<and>
             anonymize_text text nlp =
               Inr (rewrite_from 0 (take (nat (fst (reps ! i))) text) A @ snd (snd (reps ! i)) @
                    rewrite_from (nat (fst (reps ! i))) text B) \<and>
             foldl apply_replacement text (rev (A @ B)) =
               rewrite_from 0 (take (nat (fst (reps ! i))) text) A @
               rewrite_from (nat (fst (reps ! i))) text B"
    if i: "i < length reps" and z: "fst (reps ! i) = fst (snd (reps ! i))" for i
  proof -
    obtain s e p where r: "reps ! i = (s, e, p)" by (cases "reps ! i")
    with z have es: "e = s" by simp
    from i have "reps ! i \<in> set (left_to_right reps)"
      by (simp add: lr sorted_replacements_def)
    then obtain A B where AB: "left_to_right reps = A @ reps ! i # B"
      by (auto simp: in_set_conv_decomp)
    with lr have L: "?L = rev B @ reps ! i # rev A" by (metis rev_append rev.simps(2) rev_rev_ident append.assoc append_Cons append_Nil)
    from sep L have sw: "sorted_wrt ?R (rev B @ reps ! i # rev A)" by simp
    then have A1: "\<forall>a\<in>set A. snd (span_of a) \<le> s"
      and B1: "\<forall>b\<in>set B. s \<le> fst (span_of b)"
      and sw': "sorted_wrt ?R (rev B @ rev A)"
      by (auto simp: sorted_wrt_append r es span_of_def)
    have vA: "\<forall>a\<in>set A. valid_span text (span_of a)"
      and vB: "\<forall>b\<in>set B. valid_span text (span_of b)"
      using vL L by auto
    from A1 vA have A2: "\<forall>a\<in>set A. fst (span_of a) \<le> s \<and> snd (span_of a) \<le> s"
      by (fastforce simp: valid_span_def)
    then have A3: "\<forall>a\<in>set A. fst (span_of a) \<le> s" by simp
    have 1: "rewrite_from 0 text (left_to_right reps) =
        rewrite_from 0 (take (nat s) text) A @ p @ rewrite_from (nat s) text B"
      using rewrite_from_insert [OF A3, of 0 "text" e p B] by (simp add: AB r es)
    have "foldl apply_replacement text (rev (A @ B)) = rewrite_from 0 text (rev (rev (A @ B)))"
    proof (rule foldl_apply_rewrite)
      show "sorted_wrt ?R (rev (A @ B))" using sw' by simp
      show "\<forall>r\<in>set (rev (A @ B)). valid_span text (span_of r)" using vA vB by auto
    qed
    also have "\<dots> = rewrite_from 0 (take (nat s) text) A @ rewrite_from (nat s) text B"
      using rewrite_from_append [OF A2 B1, of 0 "text"] by simp
    finally have 2: "foldl apply_replacement text (rev (A @ B)) =
        rewrite_from 0 (take (nat s) text) A @ rewrite_from (nat s) text B" .
    from AB out 1 2 show ?thesis by (auto simp: r)
  qed
  with run sp show "\<exists>pc reps.
       ents_loop text (placeholder_mapping (lang nlp)) ([], []) (doc_ents nlp text) = Inr (pc, reps) \<and>
       map span_of reps = spans ?F \<and>
       (\<forall>i<length reps. fst (reps ! i) = fst (snd (reps ! i)) \<longrightarrow>
          (\<exists>A B. left_to_right reps = A @ reps ! i # B \<and>
             anonymize_text text nlp =
               Inr (rewrite_from 0 (take (nat (fst (reps ! i))) text) A @ snd (snd (reps ! i)) @
                    rewrite_from (nat (fst (reps ! i))) text B) \<and>
             foldl apply_replacement text (rev (A @ B)) =
               rewrite_from 0 (take (nat (fst (reps ! i))) text) A @
               rewrite_from (nat (fst (reps ! i))) text B))"
    by blast
qed

theorem zero_length_span_inserts_witness:
  "anonymize_text (ustr ''AB'')
     (detector (ustr ''en'') [\<lparr>start_char = 1, end_char = 1, label = ustr ''PERSON''\<rparr>])
   = Inr (ustr ''Aperson_1B'')"
proof -
  let ?text = "ustr ''AB''"
  let ?ent = "\<lparr>start_char = 1, end_char = 1, label = ustr ''PERSON''\<rparr>"
  let ?nlp = "detector (ustr ''en'') [?ent]"
  let ?r = "(1, 1, ustr ''person_1'') :: replacement"
  have h: "list_all (valid_span ?text) (spans (in_scope_ents ?text ?nlp)) \<and>
    non_overlapping (spans (in_scope_ents ?text ?nlp)) \<and>
    no_empty_before (spans (in_scope_ents ?text ?nlp))" by code_simp
  have E: "ents_loop ?text (placeholder_mapping (lang ?nlp)) ([], []) (doc_ents ?nlp ?text)
      = Inr ([([], ustr ''person_1'')], [?r])" by code_simp
  have X: "rewrite_from 0 (take (nat (fst ?r)) ?text) [] @ snd (snd ?r) @
      rewrite_from (nat (fst ?r)) ?text [] = ustr ''Aperson_1B''" by code_simp
  from zero_length_span_inserts [of ?text ?nlp] h obtain pc reps where
    run: "ents_loop ?text (placeholder_mapping (lang ?nlp)) ([], []) (doc_ents ?nlp ?text) = Inr (pc, reps)"
    and ins: "\<forall>i<length reps. fst (reps ! i) = fst (snd (reps ! i)) \<longrightarrow>
          (\<exists>A B. left_to_right reps = A @ reps ! i # B \<and>
             anonymize_text ?text ?nlp =
               Inr (rewrite_from 0 (take (nat (fst (reps ! i))) ?text) A @ snd (snd (reps ! i)) @
                    rewrite_from (nat (fst (reps ! i))) ?text B) \<and>
             foldl apply_replacement ?text (rev (A @ B)) =
               rewrite_from 0 (take (nat (fst (reps ! i))) ?text) A @
               rewrite_from (nat (fst (reps ! i))) ?text B)"
    by blast
  from run have reps: "reps = [?r]" by (simp only: E sum.inject prod.inject)
  have "0 < length [?r]" and "fst ([?r] ! 0) = fst (snd ([?r] ! 0))" by simp_all
  with ins [unfolded reps, rule_format, of 0] obtain A B where
    AB: "left_to_right [?r] = A @ [?r] ! 0 # B"
    and out: "anonymize_text ?text ?nlp =
               Inr (rewrite_from 0 (take (nat (fst ([?r] ! 0))) ?text) A @ snd (snd ([?r] ! 0)) @
                    rewrite_from (nat (fst ([?r] ! 0))) ?text B)"
    by blast
  have "left_to_right [?r] = [?r]" by (simp add: left_to_right_def)
  with AB have "A = [] \<and> B = []" by (simp add: Cons_eq_append_conv)
  with out have "anonymize_text ?text ?nlp =
      Inr (rewrite_from 0 (take (nat (fst ?r)) ?text) [] @ snd (snd ?r) @
      rewrite_from (nat (fst ?r)) ?text [])" by simp
  then show ?thesis by (simp only: X)
qed

text \<open>
  C9 (as stated, refuted). On \<open>"abcdef"\<close> with the out-of-scope span \<open>(0,4,ORG)\<close> and the
  overlapping in-scope span \<open>(2,6,PERSON)\<close> the result is \<open>"abperson_1"\<close>: the text
  \<open>abcd\<close> that the out-of-scope entity covers is not left untouched.
\<close>

theorem overlapped_out_of_scope_text_rewritten:
  "\<not> in_scope (placeholder_mapping (ustr ''en''))
       \<lparr>start_char = 0, end_char = 4, label = ustr ''ORG''\<rparr> \<and>
   ent_text (ustr ''abcdef'') \<lparr>start_char = 0, end_char = 4, label = ustr ''ORG''\<rparr>
     = ustr ''abcd'' \<and>
   anonymize_text (ustr ''abcdef'')
     (detector (ustr ''en'')
        [\<lparr>start_char = 0, end_char = 4, label = ustr ''ORG''\<rparr>,
         \<lparr>start_char = 2, end_char = 6, label = ustr ''PERSON''\<rparr>])
     = Inr (ustr ''abperson_1'') \<and>
   \<not> sublist (ustr ''abcd'') (ustr ''abperson_1'')"
  by code_simp

text \<open>
  C9 (amended). An entity whose label is not a key of the placeholder mapping is
  filtered out: the result is the one obtained from the in-scope entities alone, the
  first loop makes a replacement for the in-scope entities only, and a text whose
  entities are all out of scope is returned unchanged. When the in-scope spans are
  valid and pairwise non-overlapping, every stretch \<open>[a, b)\<close> of the text an
  out-of-scope entity covers that overlaps no in-scope span occurs in the result
  unchanged and in one piece; so does its whole text when it overlaps none.
\<close>

theorem out_of_scope_entities_ignored:
  "anonymize_text text nlp =
     anonymize_text text
       (nlp\<lparr>doc_ents := \<lambda>t. filter (in_scope (placeholder_mapping (lang nlp))) (doc_ents nlp t)\<rparr>) \<and>
   (\<exists>pc reps.
      ents_loop text (placeholder_mapping (lang nlp)) ([], []) (doc_ents nlp text) = Inr (pc, reps) \<and>
      anonymize_text text nlp = Inr (foldl apply_replacement text (sorted_replacements reps)) \<and>
      map (\<lambda>r. (fst r, fst (snd r))) reps =
        map (\<lambda>ent. (start_char ent, end_char ent)) (in_scope_ents text nlp)) \<and>
   ((\<forall>ent \<in> set (doc_ents nlp text). \<not> in_scope (placeholder_mapping (lang nlp)) ent) \<longrightarrow>
      anonymize_text text nlp = Inr text) \<and>
   (list_all (valid_span text) (spans (in_scope_ents text nlp)) \<and>
    non_overlapping (spans (in_scope_ents text nlp)) \<longrightarrow>
    (\<exists>out. anonymize_text text nlp = Inr out \<and>
       (\<forall>ent \<in> set (doc_ents nlp text). \<forall>a b.
          \<not> in_scope (placeholder_mapping (lang nlp)) ent \<and>
          start_char ent \<le> a \<and> a \<le> b \<and> b \<le> end_char ent \<and>
          0 \<le> a \<and> b \<le> int (length text) \<and>
          list_all (disjoint_spans (a, b)) (spans (in_scope_ents text nlp)) \<longrightarrow>
          sublist (py_slice text a b) out)))"
proof (intro conjI impI)
  let ?pm = "placeholder_mapping (lang nlp)"
  show "anonymize_text text nlp =
     anonymize_text text (nlp\<lparr>doc_ents := \<lambda>t. filter (in_scope ?pm) (doc_ents nlp t)\<rparr>)"
    by (simp add: anonymize_text_def ents_loop_filter)
  from ents_loop_initial [of "text" nlp] obtain pc reps where
    run: "ents_loop text ?pm ([], []) (doc_ents nlp text) = Inr (pc, reps)"
    and an: "anonymize_text text nlp = Inr (foldl apply_replacement text (sorted_replacements reps))"
    and rs: "list_all2 (\<lambda>ent r. fst r = start_char ent \<and> fst (snd r) = end_char ent \<and>
                  dict_get pc (ent_text text ent) = Some (snd (snd r))) (in_scope_ents text nlp) reps"
    by blast
  from rs have "map (\<lambda>r. (fst r, fst (snd r))) reps =
        map (\<lambda>ent. (start_char ent, end_char ent)) (in_scope_ents text nlp)"
    by (rule list_all2_map_eq) simp
  with run an show "\<exists>pc reps.
      ents_loop text ?pm ([], []) (doc_ents nlp text) = Inr (pc, reps) \<and>
      anonymize_text text nlp = Inr (foldl apply_replacement text (sorted_replacements reps)) \<and>
      map (\<lambda>r. (fst r, fst (snd r))) reps =
        map (\<lambda>ent. (start_char ent, end_char ent)) (in_scope_ents text nlp)"
    by blast
  {
    assume "\<forall>ent \<in> set (doc_ents nlp text). \<not> in_scope ?pm ent"
    then have "filter (in_scope ?pm) (doc_ents nlp text) = []" by (simp add: filter_empty_conv)
    then have "ents_loop text ?pm ([], []) (doc_ents nlp text) = Inr ([], [])"
      using ents_loop_filter [of "text" ?pm "([], [])" "doc_ents nlp text"] by simp
    then show "anonymize_text text nlp = Inr text"
      by (simp add: anonymize_text_def sorted_replacements_def)
  }
  {
    assume hyp: "list_all (valid_span text) (spans (in_scope_ents text nlp)) \<and>
      non_overlapping (spans (in_scope_ents text nlp))"
    let ?out = "foldl apply_replacement text (sorted_replacements reps)"
    have "sublist (py_slice text a b) ?out"
      if "0 \<le> a" "a \<le> b" "b \<le> int (length text)"
        "list_all (disjoint_spans (a, b)) (spans (in_scope_ents text nlp))" for a b
      using hyp that an by (intro free_segment_untouched [of "text" nlp a b]) simp_all
    with an show "\<exists>out. anonymize_text text nlp = Inr out \<and>
       (\<forall>ent \<in> set (doc_ents nlp text). \<forall>a b.
          \<not> in_scope ?pm ent \<and>
          start_char ent \<le> a \<and> a \<le> b \<and> b \<le> end_char ent \<and>
          0 \<le> a \<and> b \<le> int (length text) \<and>
          list_all (disjoint_spans (a, b)) (spans (in_scope_ents text nlp)) \<longrightarrow>
          sublist (py_slice text a b) out)"
      by blast
  }
qed

theorem out_of_scope_entities_ignored_witness:
  "anonymize_text (ustr ''Acme hired staff'')
     (detector (ustr ''en'') [\<lparr>start_char = 0, end_char = 4, label = ustr ''ORG''\<rparr>])
   = Inr (ustr ''Acme hired staff'') \<and>
   (\<exists>out.
      anonymize_text (ustr ''Acme hired Bob'')
        (detector (ustr ''en'')
           [\<lparr>start_char = 0, end_char = 4, label = ustr ''ORG''\<rparr>,
            \<lparr>start_char = 11, end_char = 14, label = ustr ''PERSON''\<rparr>]) = Inr out \<and>
      sublist (ustr ''Acme'') out)"
proof
  let ?ent = "\<lparr>start_char = 0, end_char = 4, label = ustr ''ORG''\<rparr>"
  let ?nlp = "detector (ustr ''en'') [?ent]"
  have "\<not> in_scope (placeholder_mapping (lang ?nlp)) ?ent" by code_simp
  then have "\<forall>ent \<in> set (doc_ents ?nlp (ustr ''Acme hired staff'')).
               \<not> in_scope (placeholder_mapping (lang ?nlp)) ent"
    by (simp add: detector_def)
  with out_of_scope_entities_ignored [of "ustr ''Acme hired staff''" ?nlp]
  show "anonymize_text (ustr ''Acme hired staff'') ?nlp = Inr (ustr ''Acme hired staff'')"
    by blast
next
  let ?text = "ustr ''Acme hired Bob''"
  let ?org = "\<lparr>start_char = 0, end_char = 4, label = ustr ''ORG''\<rparr>"
  let ?ents = "[?org, \<lparr>start_char = 11, end_char = 14, label = ustr ''PERSON''\<rparr>]"
  let ?nlp = "detector (ustr ''en'') ?ents"
  have h: "list_all (valid_span ?text) (spans (in_scope_ents ?text ?nlp)) \<and>
    non_overlapping (spans (in_scope_ents ?text ?nlp))" by code_simp
  have m: "?org \<in> set (doc_ents ?nlp ?text)" by (simp add: detector_def)
  have c: "\<not> in_scope (placeholder_mapping (lang ?nlp)) ?org \<and>
          start_char ?org \<le> 0 \<and> (0::int) \<le> 4 \<and> 4 \<le> end_char ?org \<and>
          (0::int) \<le> 0 \<and> 4 \<le> int (length ?text) \<and>
          list_all (disjoint_spans (0, 4)) (spans (in_scope_ents ?text ?nlp))" by code_simp
  have s: "py_slice ?text 0 4 = ustr ''Acme''" by code_simp
  from out_of_scope_entities_ignored [of ?text ?nlp] h obtain out where
    o: "anonymize_text ?text ?nlp = Inr out"
    and u: "\<forall>ent \<in> set (doc_ents ?nlp ?text). \<forall>a b.
          \<not> in_scope (placeholder_mapping (lang ?nlp)) ent \<and>
          start_char ent \<le> a \<and> a \<le> b \<and> b \<le> end_char ent \<and>
          0 \<le> a \<and> b \<le> int (length ?text) \<and>
          list_all (disjoint_spans (a, b)) (spans (in_scope_ents ?text ?nlp)) \<longrightarrow>
          sublist (py_slice ?text a b) out"
    by blast
  from u [rule_format, OF m, of 0 4] c have "sublist (py_slice ?text 0 4) out" by blast
  then have "sublist (ustr ''Acme'') out" by (simp only: s)
  with o show "\<exists>out. anonymize_text ?text ?nlp = Inr out \<and> sublist (ustr ''Acme'') out"
    by blast
qed

text \<open>
  C10. The placeholder of an entity depends on its matched substring only, not on
  its own label: every occurrence \<open>i\<close> receives \<open>w_(k+1)\<close> where \<open>w\<close> is the placeholder word
  of the label of the first in-scope entity \<open>e0\<close> with the same text and \<open>k\<close> is the
  position of that text among the distinct texts in first-seen order. The word of a
  later, different label is never used for that substring.
\<close>

theorem placeholder_keyed_by_text_only:
  "\<exists>pc reps.
     ents_loop text (placeholder_mapping (lang nlp)) ([], []) (doc_ents nlp text) = Inr (pc, reps) \<and>
     anonymize_text text nlp = Inr (foldl apply_replacement text (sorted_replacements reps)) \<and>
     length reps = length (in_scope_ents text nlp) \<and>
     (\<forall>i<length reps. \<exists>e0 w k.
        find (\<lambda>e. ent_text text e = ent_text text (in_scope_ents text nlp ! i))
          (in_scope_ents text nlp) = Some e0 \<and>
        dict_get (placeholder_mapping (lang nlp)) (label e0) = Some w \<and>
        k < length (first_seen (map (ent_text text) (in_scope_ents text nlp))) \<and>
        first_seen (map (ent_text text) (in_scope_ents text nlp)) ! k
          = ent_text text (in_scope_ents text nlp ! i) \<and>
        snd (snd (reps ! i)) = w @ ustr ''_'' @ str_nat (k + 1))"
proof -
  let ?F = "in_scope_ents text nlp"
  let ?pm = "placeholder_mapping (lang nlp)"
  from ents_loop_initial [of "text" nlp] obtain pc reps where
    run: "ents_loop text ?pm ([], []) (doc_ents nlp text) = Inr (pc, reps)"
    and an: "anonymize_text text nlp = Inr (foldl apply_replacement text (sorted_replacements reps))"
    and ks: "map fst pc = first_seen (map (ent_text text) ?F)"
    and rs: "list_all2 (\<lambda>ent r. fst r = start_char ent \<and> fst (snd r) = end_char ent \<and>
                  dict_get pc (ent_text text ent) = Some (snd (snd r))) ?F reps"
    and vs: "\<forall>k<length pc. \<exists>e0 w.
        find (\<lambda>e. ent_text text e = fst (pc ! k)) ?F = Some e0 \<and>
        dict_get ?pm (label e0) = Some w \<and>
        snd (pc ! k) = w @ ustr ''_'' @ str_nat (k + 1)"
    by blast
  from rs have len: "length reps = length ?F"
    by (simp add: list_all2_lengthD)
  have "\<exists>e0 w k.
        find (\<lambda>e. ent_text text e = ent_text text (?F ! i)) ?F = Some e0 \<and>
        dict_get ?pm (label e0) = Some w \<and>
        k < length (first_seen (map (ent_text text) ?F)) \<and>
        first_seen (map (ent_text text) ?F) ! k = ent_text text (?F ! i) \<and>
        snd (snd (reps ! i)) = w @ ustr ''_'' @ str_nat (k + 1)"
    if i: "i < length reps" for i
  proof -
    from rs i len have "dict_get pc (ent_text text (?F ! i)) = Some (snd (snd (reps ! i)))"
      by (simp add: list_all2_conv_all_nth)
    from dict_get_nth [OF this] obtain a where
      a: "a < length pc" and pa: "pc ! a = (ent_text text (?F ! i), snd (snd (reps ! i)))" by blast
    from vs [rule_format, OF a] obtain e0 w where
      f0: "find (\<lambda>e. ent_text text e = fst (pc ! a)) ?F = Some e0"
      and w: "dict_get ?pm (label e0) = Some w"
      and v0: "snd (pc ! a) = w @ ustr ''_'' @ str_nat (a + 1)"
      by blast
    from f0 pa have f: "find (\<lambda>e. ent_text text e = ent_text text (?F ! i)) ?F = Some e0"
      by simp
    from v0 pa have v: "snd (snd (reps ! i)) = w @ ustr ''_'' @ str_nat (a + 1)"
      by simp
    from a have "map fst pc ! a = fst (pc ! a)" by simp
    with ks pa have n: "first_seen (map (ent_text text) ?F) ! a = ent_text text (?F ! i)" by simp
    from a ks have "a < length (first_seen (map (ent_text text) ?F))"
      by (metis length_map)
    with f w v n show ?thesis by blast
  qed
  with run an len show ?thesis by blast
qed

theorem placeholder_keyed_by_text_only_witness:
  "\<exists>pc reps.
     ents_loop (ustr ''May May'') (placeholder_mapping (ustr ''en'')) ([], [])
        [\<lparr>start_char = 0, end_char = 3, label = ustr ''PERSON''\<rparr>,
         \<lparr>start_char = 4, end_char = 7, label = ustr ''DATE''\<rparr>] = Inr (pc, reps) \<and>
     length reps = 2 \<and> snd (snd (reps ! 1)) = ustr ''person_1''"
proof -
  let ?text = "ustr ''May May''"
  let ?ents = "[\<lparr>start_char = 0, end_char = 3, label = ustr ''PERSON''\<rparr>,
         \<lparr>start_char = 4, end_char = 7, label = ustr ''DATE''\<rparr>]"
  let ?nlp = "detector (ustr ''en'') ?ents"
  have F: "in_scope_ents ?text ?nlp = ?ents" by code_simp
  have K: "first_seen (map (ent_text ?text) ?ents) = [ustr ''May'']" by code_simp
  have Fd: "find (\<lambda>e. ent_text ?text e = ent_text ?text (?ents ! 1)) ?ents = Some (?ents ! 0)"
    by code_simp
  have W: "dict_get (placeholder_mapping (lang ?nlp)) (label (?ents ! 0)) = Some (ustr ''person'')"
    by code_simp
  have P: "ustr ''person'' @ ustr ''_'' @ str_nat (0 + 1) = ustr ''person_1''" by code_simp
  have L: "lang ?nlp = ustr ''en''" "doc_ents ?nlp ?text = ?ents" by (simp_all add: detector_def)
  from placeholder_keyed_by_text_only [of ?text ?nlp] obtain pc reps where
    run: "ents_loop ?text (placeholder_mapping (lang ?nlp)) ([], []) (doc_ents ?nlp ?text) = Inr (pc, reps)"
    and len: "length reps = length (in_scope_ents ?text ?nlp)"
    and key: "\<forall>i<length reps. \<exists>e0 w k.
        find (\<lambda>e. ent_text ?text e = ent_text ?text (in_scope_ents ?text ?nlp ! i))
          (in_scope_ents ?text ?nlp) = Some e0 \<and>
        dict_get (placeholder_mapping (lang ?nlp)) (label e0) = Some w \<and>
        k < length (first_seen (map (ent_text ?text) (in_scope_ents ?text ?nlp))) \<and>
        first_seen (map (ent_text ?text) (in_scope_ents ?text ?nlp)) ! k
          = ent_text ?text (in_scope_ents ?text ?nlp ! i) \<and>
        snd (snd (reps ! i)) = w @ ustr ''_'' @ str_nat (k + 1)"
    by blast
  from len F have len2: "length reps = 2" by simp
  then have "1 < length reps" by simp
  from key [rule_format, OF this] obtain e0 w k where
    f: "find (\<lambda>e. ent_text ?text e = ent_text ?text (in_scope_ents ?text ?nlp ! 1))
          (in_scope_ents ?text ?nlp) = Some e0"
    and w: "dict_get (placeholder_mapping (lang ?nlp)) (label e0) = Some w"
    and k: "k < length (first_seen (map (ent_text ?text) (in_scope_ents ?text ?nlp)))"
    and v: "snd (snd (reps ! 1)) = w @ ustr ''_'' @ str_nat (k + 1)"
    by blast
  from f have "Some e0 = Some (?ents ! 0)" by (simp only: F Fd)
  then have "e0 = ?ents ! 0" by simp
  with w W have "w = ustr ''person''" by simp
  moreover from k have "k < length [ustr ''May'']" by (simp only: F K)
  then have "k = 0" by simp
  ultimately have "snd (snd (reps ! 1)) = ustr ''person_1''" using v P by simp
  with run len2 L show ?thesis by auto
qed

end
